theory Spec2Isabelle
  imports
    Main
    "HOL-Library.Sublist"
    "HOL-Library.AList"
    "HOL-Library.Char_ord"
    "HOL-Library.List_Lexorder"
begin

section \<open>Strings, dictionaries and errors\<close>

text \<open>
  The program is \<^verbatim>\<open>src/sinzlab_tools/main.py\<close>. A Python \<^verbatim>\<open>str\<close> is modelled as a
  \<^typ>\<open>string\<close>: one \<^typ>\<open>char\<close> per code point, which covers the code points below 256.
  The only non-ASCII character of the source, the degree sign of the header
  for the temperature (code point 176), is the single character \<open>CHR 0xB0\<close>, so \<^const>\<open>length\<close> counts what
  Python's \<^verbatim>\<open>len\<close> counts. A Python \<^verbatim>\<open>dict\<close> is an association list in insertion order:
  \<^const>\<open>AList.update\<close> overwrites the value of a key that is present, in place, and
  appends a key that is absent, as a \<^verbatim>\<open>dict\<close> assignment does.
\<close>

type_synonym host = string
type_synonym py_record = "(string \<times> string) list"
type_synonym host_records = "(host \<times> py_record list) list"

datatype error =
    KeyError string
  | IndexError
  | RunError string
  | InterpolationSyntaxError
  | InterpolationMissingOptionError string
  | InterpolationDepthError

definition newline :: char where
  "newline = CHR 0x0A"

definition dquote :: char where
  "dquote = CHR 0x22"

text \<open>
  \<^verbatim>\<open>s.split(sep)\<close> for a non-empty separator, given as its first character and the
  rest: the occurrences of the separator are found from left to right, without overlap,
  and the pieces between them are returned, so the result is never empty.
\<close>

function py_split :: "char \<Rightarrow> string \<Rightarrow> string \<Rightarrow> string list" where
  "py_split c cs [] = [[]]"
| "py_split c cs (x # xs) =
     (if prefix (c # cs) (x # xs) then [] # py_split c cs (drop (length cs) xs)
      else (case py_split c cs xs of
              [] \<Rightarrow> [[x]]
            | p # ps \<Rightarrow> (x # p) # ps))"
  by pat_completeness auto
termination
  by (relation "measure (\<lambda>(c, cs, s). length s)") auto

definition split_lines :: "string \<Rightarrow> string list" where
  \<comment> \<open>\<^verbatim>\<open>s.split('\n')\<close>\<close>
  "split_lines s = py_split newline [] s"

definition split_comma_space :: "string \<Rightarrow> string list" where
  \<comment> \<open>\<^verbatim>\<open>s.split(', ')\<close>\<close>
  "split_comma_space s = py_split CHR '','' '' '' s"

definition split_comma :: "string \<Rightarrow> string list" where
  \<comment> \<open>\<^verbatim>\<open>s.split(',')\<close>\<close>
  "split_comma s = py_split CHR '','' [] s"

definition dict_of_pairs :: "(string \<times> string) list \<Rightarrow> py_record" where
  \<comment> \<open>the comprehension \<^verbatim>\<open>{k: v for k, v in pairs}\<close>\<close>
  "dict_of_pairs kvs = foldl (\<lambda>d (k, v). AList.update k v d) [] kvs"

section \<open>GPU telemetry: \<^verbatim>\<open>check_gpus\<close>\<close>

definition gpu_field_names :: "string list" where
  "gpu_field_names =
     [''INDEX'', ''UTIL (%)'', ''TEMP ('' @ [CHR 0xB0] @ ''C)'', ''USED (MiB)'', ''TOTAL (MiB)'']"

definition gpu_lines :: "string \<Rightarrow> string list list" where
  \<comment> \<open>\<^verbatim>\<open>[l.split(', ') for l in result.stdout.split('\n')][:-1]\<close>\<close>
  "gpu_lines stdout = butlast (map split_comma_space (split_lines stdout))"

definition parse_gpus :: "string \<Rightarrow> py_record list" where
  "parse_gpus stdout = map (\<lambda>line. dict_of_pairs (zip gpu_field_names line)) (gpu_lines stdout)"

definition check_gpus_data :: "(host \<times> string) list \<Rightarrow> host_records" where
  \<comment> \<open>the loop over \<^verbatim>\<open>sorted(results.items())\<close> that fills \<^verbatim>\<open>data\<close>; the keys of
      \<^verbatim>\<open>results\<close> are distinct, so the items are ordered by their keys\<close>
  "check_gpus_data results =
     foldl (\<lambda>data (connection, stdout). AList.update connection (parse_gpus stdout) data)
       [] (sort_key fst results)"

section \<open>Container listing: \<^verbatim>\<open>docker ps\<close>\<close>

definition ps_field_names :: "string list" where
  "ps_field_names = [''ID'', ''Image'', ''Command'', ''RunningFor'', ''Status'', ''Ports'', ''Names'']"

definition is_digit :: "char \<Rightarrow> bool" where
  \<comment> \<open>the class \<^verbatim>\<open>\d\<close> on the code points below 256\<close>
  "is_digit c = (c \<in> set ''0123456789'')"

definition gpu_key :: string where
  "gpu_key = ''NVIDIA_VISIBLE_DEVICES=''"

definition match_group :: "string \<Rightarrow> string option" where
  \<comment> \<open>the group \<^verbatim>\<open>(all|\d+)\<close> at the start of the text: the first alternative is tried
      first, then the longest non-empty run of digits\<close>
  "match_group s =
     (if prefix ''all'' s then Some ''all''
      else (case takeWhile is_digit s of [] \<Rightarrow> None | d # ds \<Rightarrow> Some (d # ds)))"

definition match_here :: "string \<Rightarrow> string option" where
  \<comment> \<open>the pattern \<^verbatim>\<open>NVIDIA_VISIBLE_DEVICES=(all|\d+)\<close> anchored at the start of the text\<close>
  "match_here s =
     (if prefix gpu_key s then match_group (drop (length gpu_key) s) else None)"

fun re_search :: "string \<Rightarrow> string option" where
  \<comment> \<open>\<^verbatim>\<open>re.search\<close>: the leftmost start position at which the pattern matches; the value
      is group 1 of the match\<close>
  "re_search [] = match_here []"
| "re_search (c # cs) =
     (case match_here (c # cs) of Some g \<Rightarrow> Some g | None \<Rightarrow> re_search cs)"

definition gpu_of_inspect :: "string \<Rightarrow> string" where
  \<comment> \<open>\<^verbatim>\<open>match.group(1) if match else ''\<close>\<close>
  "gpu_of_inspect out = (case re_search out of Some g \<Rightarrow> g | None \<Rightarrow> [])"

definition inspect_command :: "string \<Rightarrow> string" where
  "inspect_command con_id =
     ''docker inspect --format '' @ [dquote] @ ''{{.Config.Env}}'' @ [dquote] @ '' '' @ con_id"

definition container_of :: "string list \<Rightarrow> py_record" where
  \<comment> \<open>\<^verbatim>\<open>{k: v for k, v in zip(field_names, values)}\<close>\<close>
  "container_of vals = dict_of_pairs (zip ps_field_names vals)"

text \<open>
  The loop over the lines of one host. \<open>run\<close> is \<^verbatim>\<open>connection.run\<close> of that host: the
  standard output of a command, or the exception it raises. An exception leaves the loop.
\<close>

fun ps_containers :: "(string \<Rightarrow> error + string) \<Rightarrow> string list \<Rightarrow> error + py_record list" where
  "ps_containers run [] = Inr []"
| "ps_containers run (line # lines) =
     (let vals = split_comma_space line in
      case vals of
        [] \<Rightarrow> Inl IndexError
      | con_id # _ \<Rightarrow>
          (case run (inspect_command con_id) of
             Inl e \<Rightarrow> Inl e
           | Inr out \<Rightarrow>
               (case ps_containers run lines of
                  Inl e \<Rightarrow> Inl e
                | Inr containers \<Rightarrow>
                    Inr (AList.update ''GPU'' (gpu_of_inspect out) (container_of vals)
                         # containers))))"

definition ps_lines :: "string \<Rightarrow> string list" where
  \<comment> \<open>\<^verbatim>\<open>result.stdout.split('\n')[:-1]\<close>\<close>
  "ps_lines stdout = butlast (split_lines stdout)"

definition ps_host :: "(string \<Rightarrow> error + string) \<Rightarrow> string \<Rightarrow> error + py_record list" where
  "ps_host run stdout =
     (let lines = ps_lines stdout in
      if lines \<noteq> [] then ps_containers run lines else Inr [])"

fun ps_data ::
  "(host \<Rightarrow> string \<Rightarrow> error + string) \<Rightarrow> (host \<times> string) list \<Rightarrow> host_records
   \<Rightarrow> error + host_records" where
  "ps_data run [] data = Inr data"
| "ps_data run ((connection, stdout) # results) data =
     (case ps_host (run connection) stdout of
        Inl e \<Rightarrow> Inl e
      | Inr containers \<Rightarrow> ps_data run results (AList.update connection containers data))"

section \<open>The host list: \<^verbatim>\<open>cli\<close>\<close>

definition is_space :: "char \<Rightarrow> bool" where
  \<comment> \<open>\<^verbatim>\<open>str.isspace\<close> on the code points below 256\<close>
  "is_space c =
     (c \<in> set [CHR 0x09, CHR 0x0A, CHR 0x0B, CHR 0x0C, CHR 0x0D, CHR 0x1C, CHR 0x1D,
                CHR 0x1E, CHR 0x1F, CHR 0x20, CHR 0x85, CHR 0xA0])"

fun split_ws_from :: "string \<Rightarrow> string \<Rightarrow> string list" where
  \<comment> \<open>the first argument is the word read so far, reversed\<close>
  "split_ws_from cur [] = (if cur = [] then [] else [rev cur])"
| "split_ws_from cur (c # cs) =
     (if is_space c then (if cur = [] then split_ws_from [] cs else rev cur # split_ws_from [] cs)
      else split_ws_from (c # cur) cs)"

definition split_whitespace :: "string \<Rightarrow> string list" where
  \<comment> \<open>\<^verbatim>\<open>s.split()\<close>: the maximal runs of characters that are not whitespace\<close>
  "split_whitespace s = split_ws_from [] s"

fun py_join :: "string \<Rightarrow> string list \<Rightarrow> string" where
  "py_join sep [] = []"
| "py_join sep [x] = x"
| "py_join sep (x # y # ys) = x @ sep @ py_join sep (y # ys)"

record ctx_obj =
  hosts :: "string list"
  user :: string

text \<open>
  The configuration is read with \<^verbatim>\<open>configparser.ConfigParser\<close>. The model starts from
  the options of the section \<^verbatim>\<open>DEFAULT\<close> as the parser holds them after \<^verbatim>\<open>config.read\<close>:
  a map from the option names, in lower case, to their raw values. The access
  \<^verbatim>\<open>config['DEFAULT'][key]\<close> raises \<^verbatim>\<open>KeyError\<close> for an absent option and otherwise
  expands the raw value with the parser's \<^verbatim>\<open>BasicInterpolation\<close>: \<^verbatim>\<open>%%\<close> stands for a
  percent sign, \<^verbatim>\<open>%(name)s\<close> for the expanded value of the option \<^verbatim>\<open>name\<close>, any other
  use of the percent sign is an error, and so is a nesting of references deeper than
  \<^verbatim>\<open>MAX_INTERPOLATION_DEPTH\<close>.
\<close>

definition py_lower_char :: "char \<Rightarrow> char" where
  \<comment> \<open>\<^verbatim>\<open>str.lower\<close> on one code point below 256\<close>
  "py_lower_char c =
     (if (65 \<le> (of_char c :: nat) \<and> (of_char c :: nat) \<le> 90)
         \<or> (192 \<le> (of_char c :: nat) \<and> (of_char c :: nat) \<le> 222 \<and> (of_char c :: nat) \<noteq> 215)
      then char_of ((of_char c :: nat) + 32) else c)"

definition optionxform :: "string \<Rightarrow> string" where
  \<comment> \<open>\<^verbatim>\<open>optionstr.lower()\<close>\<close>
  "optionxform optionstr = map py_lower_char optionstr"

definition MAX_INTERPOLATION_DEPTH :: nat where
  "MAX_INTERPOLATION_DEPTH = 10"

definition before_percent :: "string \<Rightarrow> string" where
  \<comment> \<open>\<^verbatim>\<open>rest[:p]\<close> for \<^verbatim>\<open>p = rest.find("%")\<close>, the whole text when there is no percent sign\<close>
  "before_percent rest = takeWhile (\<lambda>c. c \<noteq> CHR ''%'') rest"

definition from_percent :: "string \<Rightarrow> string" where
  \<comment> \<open>\<^verbatim>\<open>rest[p:]\<close> for \<^verbatim>\<open>p = rest.find("%")\<close>, empty when there is no percent sign\<close>
  "from_percent rest = dropWhile (\<lambda>c. c \<noteq> CHR ''%'') rest"

definition match_keycre :: "string \<Rightarrow> (string \<times> string) option" where
  \<comment> \<open>\<^verbatim>\<open>_KEYCRE.match(rest)\<close> for the pattern \<^verbatim>\<open>%\(([^)]+)\)s\<close>: group 1 and the text after
      the match\<close>
  "match_keycre rest =
     (case rest of
        p # q # t \<Rightarrow>
          (if p = CHR ''%'' \<and> q = CHR ''(''
                \<and> takeWhile (\<lambda>c. c \<noteq> CHR '')'') t \<noteq> []
                \<and> prefix '')s'' (dropWhile (\<lambda>c. c \<noteq> CHR '')'') t)
           then Some (takeWhile (\<lambda>c. c \<noteq> CHR '')'') t,
                      drop 2 (dropWhile (\<lambda>c. c \<noteq> CHR '')'') t))
           else None)
      | _ \<Rightarrow> None)"

text \<open>
  \<^verbatim>\<open>_interpolate_some\<close>, returning the text it appends to \<^verbatim>\<open>accum\<close>. The depth is tested
  on entry; the continuation of the \<^verbatim>\<open>while\<close> loop is a call at the same depth, where the
  test has already passed.
\<close>

function interpolate_some :: "(string \<rightharpoonup> string) \<Rightarrow> nat \<Rightarrow> string \<Rightarrow> error + string" where
  "interpolate_some defaults depth rest =
     (if depth > MAX_INTERPOLATION_DEPTH then Inl InterpolationDepthError
      else
        (case from_percent rest of
           [] \<Rightarrow> Inr rest
         | p # t \<Rightarrow>
             (case t of
                [] \<Rightarrow> Inl InterpolationSyntaxError
              | c # t' \<Rightarrow>
                  (if c = CHR ''%'' then
                     (case interpolate_some defaults depth t' of
                        Inl e \<Rightarrow> Inl e
                      | Inr s \<Rightarrow> Inr (before_percent rest @ ''%'' @ s))
                   else if c = CHR ''('' then
                     (case match_keycre (p # c # t') of
                        None \<Rightarrow> Inl InterpolationSyntaxError
                      | Some (name, rest') \<Rightarrow>
                          (case defaults (optionxform name) of
                             None \<Rightarrow> Inl (InterpolationMissingOptionError (optionxform name))
                           | Some v \<Rightarrow>
                               (case (if CHR ''%'' \<in> set v
                                      then interpolate_some defaults (depth + 1) v
                                      else Inr v) of
                                  Inl e \<Rightarrow> Inl e
                                | Inr s1 \<Rightarrow>
                                    (case interpolate_some defaults depth rest' of
                                       Inl e \<Rightarrow> Inl e
                                     | Inr s2 \<Rightarrow> Inr (before_percent rest @ s1 @ s2)))))
                   else Inl InterpolationSyntaxError))))"
  by pat_completeness auto
termination
proof (relation "measures [\<lambda>(defaults, depth, rest). MAX_INTERPOLATION_DEPTH + 1 - depth,
                           \<lambda>(defaults, depth, rest). length rest]", goal_cases)
  case 1
  show ?case by simp
next
  case (2 defaults depth rest p t c t')
  have "length (from_percent rest) \<le> length rest"
    unfolding from_percent_def by (rule length_dropWhile_le)
  with 2 show ?case by simp
next
  case (3 defaults depth rest p t c t' x name rest' v)
  then have "\<not> MAX_INTERPOLATION_DEPTH < depth" by simp
  then have "MAX_INTERPOLATION_DEPTH + 1 - (depth + 1) < MAX_INTERPOLATION_DEPTH + 1 - depth"
    by arith
  then show ?case by simp
next
  case (4 defaults depth rest p t c t' x name rest' v s1)
  have "length (from_percent rest) \<le> length rest"
    unfolding from_percent_def by (rule length_dropWhile_le)
  moreover have "length rest' < length (p # c # t')"
  proof -
    from 4 have "match_keycre (p # c # t') = Some (name, rest')" by simp
    then have "rest' = drop 2 (dropWhile (\<lambda>c. c \<noteq> CHR '')'') t')"
      by (auto simp: match_keycre_def split: if_splits)
    moreover have "length (dropWhile (\<lambda>c. c \<noteq> CHR '')'') t') \<le> length t'"
      by (rule length_dropWhile_le)
    ultimately show ?thesis by simp
  qed
  ultimately show ?case using 4 by simp
qed

declare interpolate_some.simps [simp del]

definition before_get :: "(string \<rightharpoonup> string) \<Rightarrow> string \<Rightarrow> error + string" where
  \<comment> \<open>\<^verbatim>\<open>BasicInterpolation.before_get\<close>: the expansion starts at depth 1\<close>
  "before_get defaults v = interpolate_some defaults 1 v"

definition config_default :: "(string \<rightharpoonup> string) \<Rightarrow> string \<Rightarrow> error + string" where
  \<comment> \<open>\<^verbatim>\<open>config['DEFAULT'][key]\<close>\<close>
  "config_default config key =
     (case config (optionxform key) of
        None \<Rightarrow> Inl (KeyError key)
      | Some v \<Rightarrow> before_get config v)"

definition short_hosts :: "(string \<rightharpoonup> string) \<Rightarrow> string option \<Rightarrow> error + string list" where
  \<comment> \<open>the branch on \<^verbatim>\<open>if hosts:\<close>; \<open>None\<close> and the empty string are false\<close>
  "short_hosts config hosts_opt =
     (case hosts_opt of
        Some (c # cs) \<Rightarrow> Inr (split_comma (c # cs))
      | _ \<Rightarrow> (case config_default config ''hosts'' of
                Inl e \<Rightarrow> Inl e
              | Inr v \<Rightarrow> Inr (split_whitespace v)))"

definition cli :: "(string \<rightharpoonup> string) \<Rightarrow> string option \<Rightarrow> error + ctx_obj" where
  "cli config hosts_opt =
     (case short_hosts config hosts_opt of
        Inl e \<Rightarrow> Inl e
      | Inr hs \<Rightarrow>
          (case config_default config ''common'' of
             Inl e \<Rightarrow> Inl e
           | Inr common \<Rightarrow>
               (case config_default config ''user'' of
                  Inl e \<Rightarrow> Inl e
                | Inr u \<Rightarrow>
                    Inr \<lparr>hosts = map (\<lambda>h. py_join ''.'' [h, common]) hs, user = u\<rparr>)))"

section \<open>The dispatcher and the table of \<^verbatim>\<open>utils\<close>\<close>

text \<open>
  Modelled from the spec: \<^verbatim>\<open>run_group_command\<close> and \<^verbatim>\<open>construct_table\<close> are imported
  from the module \<^verbatim>\<open>utils\<close>, which is not among the sources. What follows in this section
  renders the specification's contracts of the dispatcher (\<^verbatim>\<open>dispatch\<close>) and of the table
  reducer (\<^verbatim>\<open>render\<close>); the last two definitions are the calls of \<^verbatim>\<open>check_gpus\<close> and
  \<^verbatim>\<open>ps\<close> into the table.
\<close>

datatype failure = ExecutionError string | NonZeroExit int

datatype command_result = Success string string | Failure failure

type_synonym executor = "host \<Rightarrow> string \<Rightarrow> string \<Rightarrow> string + (string \<times> string \<times> int)"

definition run_on_host :: "executor \<Rightarrow> string \<Rightarrow> string \<Rightarrow> host \<Rightarrow> command_result" where
  \<comment> \<open>Modelled from the spec: the task of one host of the dispatcher of \<^verbatim>\<open>utils\<close>; an
      error of the executor and a non-zero exit are captured as a \<open>Failure\<close>.\<close>
  "run_on_host execute identity command h =
     (case execute h identity command of
        Inl description \<Rightarrow> Failure (ExecutionError description)
      | Inr (out, err, exit_status) \<Rightarrow>
          (if exit_status = 0 then Success out err else Failure (NonZeroExit exit_status)))"

definition run_group_command ::
  "executor \<Rightarrow> host list \<Rightarrow> string \<Rightarrow> string \<Rightarrow> (host \<times> command_result) list" where
  \<comment> \<open>Modelled from the spec: \<^verbatim>\<open>run_group_command\<close> of \<^verbatim>\<open>utils\<close>, the spec's
      \<^verbatim>\<open>dispatch(hosts, identity, command)\<close>. The hosts are a set, given as a list; each
      host's task writes the entry of its own host, and the mapping is returned when every
      task has ended. The order in which the tasks end is not modelled: the entries are
      written in the order of the list.\<close>
  "run_group_command execute hs identity command =
     foldl (\<lambda>results h. AList.update h (run_on_host execute identity command h) results) [] hs"

record table =
  headers :: "string list"
  rows :: "string list list"
  widths :: "nat list"

definition cell_value :: "py_record \<Rightarrow> string \<Rightarrow> string" where
  \<comment> \<open>Modelled from the spec: a cell of \<^verbatim>\<open>construct_table\<close> of \<^verbatim>\<open>utils\<close>, the record's
      value or an empty string if absent.\<close>
  "cell_value r f = (case map_of r f of Some v \<Rightarrow> v | None \<Rightarrow> [])"

definition row_of :: "string list \<Rightarrow> py_record \<Rightarrow> string list" where
  \<comment> \<open>Modelled from the spec: a row of \<^verbatim>\<open>construct_table\<close> of \<^verbatim>\<open>utils\<close>, a cell for each
      field of the field set, then the values of the record's fields that are not in the
      field set.\<close>
  "row_of field_set r =
     map (cell_value r) field_set @ map snd (filter (\<lambda>(k, v). k \<notin> set field_set) r)"

fun emit_rows :: "string list \<Rightarrow> host_records \<Rightarrow> string list list" where
  \<comment> \<open>Modelled from the spec: the row loop of \<^verbatim>\<open>construct_table\<close> of \<^verbatim>\<open>utils\<close>, over the
      hosts in the order given and the records of each host in their order.\<close>
  "emit_rows field_set [] = []"
| "emit_rows field_set ((h, records) # rest) =
     map (row_of field_set) records @ emit_rows field_set rest"

fun widen :: "nat list \<Rightarrow> string list \<Rightarrow> nat list" where
  \<comment> \<open>Modelled from the spec: the step of the width pass of \<^verbatim>\<open>construct_table\<close> of
      \<^verbatim>\<open>utils\<close>, the widths seen so far against the cells of one more row.\<close>
  "widen ws [] = ws"
| "widen [] (c # cs) = length c # widen [] cs"
| "widen (w # ws) (c # cs) = max w (length c) # widen ws cs"

definition column_widths :: "string list \<Rightarrow> string list list \<Rightarrow> nat list" where
  \<comment> \<open>Modelled from the spec: the width pass of \<^verbatim>\<open>construct_table\<close> of \<^verbatim>\<open>utils\<close>, a single
      pass over the header row and every emitted cell.\<close>
  "column_widths hdrs rs = foldl widen [] (hdrs # rs)"

definition construct_table :: "string list \<Rightarrow> host_records \<Rightarrow> table" where
  \<comment> \<open>Modelled from the spec: \<^verbatim>\<open>construct_table\<close> of \<^verbatim>\<open>utils\<close>, the spec's
      \<^verbatim>\<open>render(field_set, host_records)\<close>, with the hosts in sorted order.\<close>
  "construct_table field_set data =
     (let rs = emit_rows field_set (sort_key fst data)
      in \<lparr>headers = field_set, rows = rs, widths = column_widths field_set rs\<rparr>)"

definition check_gpus :: "(host \<times> string) list \<Rightarrow> table" where
  \<comment> \<open>\<^verbatim>\<open>construct_table(field_names, data)\<close> of \<^verbatim>\<open>check_gpus\<close>, from the dispatcher's result\<close>
  "check_gpus results = construct_table gpu_field_names (check_gpus_data results)"

definition ps ::
  "(host \<Rightarrow> string \<Rightarrow> error + string) \<Rightarrow> (host \<times> string) list \<Rightarrow> error + table" where
  \<comment> \<open>\<^verbatim>\<open>construct_table(field_names + ['GPU'], data)\<close> of \<^verbatim>\<open>ps\<close>, from the dispatcher's result\<close>
  "ps run results =
     (case ps_data run results [] of
        Inl e \<Rightarrow> Inl e
      | Inr data \<Rightarrow> Inr (construct_table (ps_field_names @ [''GPU'']) data))"

section \<open>Predicates of the specification\<close>

definition is_gpu_value :: "string \<Rightarrow> bool" where
  \<comment> \<open>the specification's value of the key: the literal \<^verbatim>\<open>all\<close> or a non-negative
      integer string, that is a non-empty string of digits\<close>
  "is_gpu_value v = (v = ''all'' \<or> (v \<noteq> [] \<and> list_all is_digit v))"

definition records_of :: "host_records \<Rightarrow> host \<Rightarrow> py_record list" where
  \<comment> \<open>the record sequence of a host in the hand-off structure, empty for a host that is
      not a key\<close>
  "records_of data h = (case map_of data h of Some rs \<Rightarrow> rs | None \<Rightarrow> [])"

definition column_cells :: "string list list \<Rightarrow> nat \<Rightarrow> nat list" where
  \<comment> \<open>the lengths of the cells of column \<open>j\<close>, over the rows that have such a column\<close>
  "column_cells rs j = map (\<lambda>r. length (r ! j)) (filter (\<lambda>r. j < length r) rs)"

section \<open>Properties of the string and dictionary operations\<close>

lemma py_split_nonempty: "py_split c cs s \<noteq> []"
  by (induction c cs s rule: py_split.induct) (auto split: list.splits)

lemma py_split_char_snoc: "py_split c [] (s @ [c]) = py_split c [] s @ [[]]"
proof (induction s)
  case Nil
  show ?case by simp
next
  case (Cons x xs)
  show ?case
  proof (cases "x = c")
    case True
    then show ?thesis using Cons by simp
  next
    case False
    obtain p ps where ps: "py_split c [] xs = p # ps"
      using py_split_nonempty [of c "[]" xs] by (cases "py_split c [] xs") auto
    show ?thesis using False Cons ps by simp
  qed
qed

lemma update_absent: "k \<notin> fst ` set d \<Longrightarrow> AList.update k v d = d @ [(k, v)]"
  by (induction d) auto

lemma foldl_update_distinct:
  "distinct (map fst (d @ kvs)) \<Longrightarrow>
   foldl (\<lambda>d (k, v). AList.update k v d) d kvs = d @ kvs"
proof (induction kvs arbitrary: d)
  case Nil
  show ?case by simp
next
  case (Cons kv kvs)
  obtain k v where kv: "kv = (k, v)" by (cases kv)
  have absent: "k \<notin> fst ` set d" using Cons.prems kv by auto
  have "distinct (map fst ((d @ [(k, v)]) @ kvs))" using Cons.prems kv by simp
  from Cons.IH [OF this] show ?case using kv absent by (simp add: update_absent)
qed

lemma dict_of_pairs_distinct: "distinct (map fst kvs) \<Longrightarrow> dict_of_pairs kvs = kvs"
  using foldl_update_distinct [of "[]" kvs] by (simp add: dict_of_pairs_def)

lemma distinct_gpu_field_names: "distinct gpu_field_names"
  by (simp add: gpu_field_names_def)

lemma dict_of_zip: "distinct ks \<Longrightarrow> dict_of_pairs (zip ks vs) = zip ks vs"
  by (rule dict_of_pairs_distinct) (simp add: map_fst_zip_take)

lemma py_split_char_append: "py_split c [] (a @ c # t) = py_split c [] a @ py_split c [] t"
proof (induction a)
  case Nil
  show ?case by simp
next
  case (Cons x xs)
  show ?case
  proof (cases "x = c")
    case True
    then show ?thesis using Cons by simp
  next
    case False
    obtain p ps where ps: "py_split c [] xs = p # ps"
      using py_split_nonempty [of c "[]" xs] by (cases "py_split c [] xs") auto
    show ?thesis using False Cons ps by simp
  qed
qed

lemma py_split_char_absent: "c \<notin> set t \<Longrightarrow> py_split c [] t = [t]"
  by (induction t) auto

lemma split_lines_tail:
  "newline \<notin> set t \<Longrightarrow> split_lines (a @ newline # t) = split_lines a @ [t]"
  by (simp add: split_lines_def py_split_char_append py_split_char_absent)

lemma split_lines_one: "newline \<notin> set t \<Longrightarrow> split_lines t = [t]"
  by (simp add: split_lines_def py_split_char_absent)

lemma parse_gpus_one_line:
  "newline \<notin> set line \<Longrightarrow>
   parse_gpus (line @ [newline]) = [dict_of_pairs (zip gpu_field_names (split_comma_space line))]"
  using split_lines_tail [of "[]" line]
  by (simp add: parse_gpus_def gpu_lines_def split_lines_one)

lemma ps_lines_one_line: "newline \<notin> set line \<Longrightarrow> ps_lines (line @ [newline]) = [line]"
  using split_lines_tail [of "[]" line] by (simp add: ps_lines_def split_lines_one)

lemma map_of_zip_take_absent:
  assumes "distinct fs" and "f \<in> set (drop n fs)"
  shows "map_of (zip (take n fs) vals) f = None"
proof -
  have "distinct (take n fs @ drop n fs)" using assms(1) by simp
  then have "f \<notin> set (take n fs)" using assms(2) by (simp only: distinct_append) blast
  moreover have "fst ` set (zip (take n fs) vals) \<subseteq> set (take n fs)"
    by (auto dest: set_zip_leftD)
  ultimately show ?thesis by (auto simp: map_of_eq_None_iff)
qed

lemma zip_short: "zip fs vals = zip (take (length vals) fs) vals"
  by (induction fs vals rule: list_induct2') auto

lemma distinct_ps_field_names: "distinct ps_field_names"
  by (simp add: ps_field_names_def)

lemma gpu_not_ps_field: "''GPU'' \<notin> set ps_field_names"
  by (simp add: ps_field_names_def)

lemma container_gpu:
  "AList.update ''GPU'' g (container_of vals) = zip ps_field_names vals @ [(''GPU'', g)]"
proof -
  have "container_of vals = zip ps_field_names vals"
    by (simp add: container_of_def dict_of_zip distinct_ps_field_names)
  moreover have "''GPU'' \<notin> fst ` set (zip ps_field_names vals)"
    using gpu_not_ps_field by (auto dest: set_zip_leftD)
  ultimately show ?thesis by (simp add: update_absent)
qed

lemma ps_host_one_line:
  assumes "newline \<notin> set line" and "run (inspect_command (hd (split_comma_space line))) = Inr out"
  shows "ps_host run (line @ [newline]) =
         Inr [zip ps_field_names (split_comma_space line) @ [(''GPU'', gpu_of_inspect out)]]"
proof -
  obtain v vs where v: "split_comma_space line = v # vs"
    using py_split_nonempty [of "CHR '',''" "'' ''" line]
    by (cases "split_comma_space line") (auto simp: split_comma_space_def)
  show ?thesis
    using assms v by (simp add: ps_host_def ps_lines_one_line container_gpu)
qed

section \<open>The record parsers\<close>

text \<open>
  Claim C2. For every standard output of the GPU telemetry command that ends with a line
  terminator, the parser discards exactly one trailing empty line and produces one record
  for each remaining line, from the line split on a comma and a space. The empty output
  gives no record, and the output \<^verbatim>\<open>0, 45, 60, 2048, 8192\<close> with its line terminator
  gives exactly one record, with the five declared fields.
\<close>

theorem gpu_parse_discards_trailing_line:
  "split_lines (body @ [newline]) = split_lines body @ [[]]
   \<and> parse_gpus (body @ [newline]) =
       map (\<lambda>line. dict_of_pairs (zip gpu_field_names (split_comma_space line)))
         (split_lines body)
   \<and> length (parse_gpus (body @ [newline])) = length (split_lines body)
   \<and> parse_gpus [] = []
   \<and> parse_gpus (''0, 45, 60, 2048, 8192'' @ [newline]) =
       [[(''INDEX'', ''0''), (''UTIL (%)'', ''45''), (''TEMP ('' @ [CHR 0xB0] @ ''C)'', ''60''),
         (''USED (MiB)'', ''2048''), (''TOTAL (MiB)'', ''8192'')]]"
proof -
  have l: "split_lines (body @ [newline]) = split_lines body @ [[]]" for body
    by (simp add: split_lines_def py_split_char_snoc)
  have p: "parse_gpus (body @ [newline]) =
       map (\<lambda>line. dict_of_pairs (zip gpu_field_names (split_comma_space line)))
         (split_lines body)" for body
    by (simp add: parse_gpus_def gpu_lines_def l butlast_append comp_def)
  have e: "parse_gpus [] = []"
    by (simp add: parse_gpus_def gpu_lines_def split_lines_def)
  have x: "parse_gpus (''0, 45, 60, 2048, 8192'' @ [newline]) =
       [[(''INDEX'', ''0''), (''UTIL (%)'', ''45''), (''TEMP ('' @ [CHR 0xB0] @ ''C)'', ''60''),
         (''USED (MiB)'', ''2048''), (''TOTAL (MiB)'', ''8192'')]]"
    by code_simp
  show ?thesis using l p e x by simp
qed

theorem gpu_parse_discards_trailing_line_witness:
  "split_lines (''1, 2'' @ [newline]) = [''1, 2'', []]
   \<and> parse_gpus (''1, 2'' @ [newline]) = [[(''INDEX'', ''1''), (''UTIL (%)'', ''2'')]]"
proof -
  have s: "split_lines ''1, 2'' = [''1, 2'']" by code_simp
  have d: "dict_of_pairs (zip gpu_field_names (split_comma_space ''1, 2'')) =
           [(''INDEX'', ''1''), (''UTIL (%)'', ''2'')]" by code_simp
  show ?thesis using gpu_parse_discards_trailing_line [of "''1, 2''"] s d by simp
qed

text \<open>
  Claim C8. Both parsers drop the last segment of the output split at the line
  terminators, whatever it is: what follows the last line terminator is discarded, so an
  output with no line terminator at all, such as \<^verbatim>\<open>0, 45, 60, 2048, 8192\<close>, gives no
  record.
\<close>

theorem last_segment_dropped_unconditionally:
  assumes "newline \<notin> set tail"
  shows "gpu_lines stdout = butlast (map split_comma_space (split_lines stdout))
       \<and> ps_lines stdout = butlast (split_lines stdout)
       \<and> parse_gpus (body @ newline # tail) = parse_gpus (body @ [newline])
       \<and> ps_host run (body @ newline # tail) = ps_host run (body @ [newline])
       \<and> parse_gpus tail = []
       \<and> ps_host run tail = Inr []"
proof -
  have a: "split_lines (body @ newline # tail) = split_lines body @ [tail]"
    using assms by (rule split_lines_tail)
  have b: "split_lines (body @ [newline]) = split_lines body @ [[]]"
    using split_lines_tail [of "[]" body] by simp
  have c: "split_lines tail = [tail]"
    using assms by (rule split_lines_one)
  have "parse_gpus (body @ newline # tail) = parse_gpus (body @ [newline])"
    by (simp add: parse_gpus_def gpu_lines_def a b)
  moreover have "ps_host run (body @ newline # tail) = ps_host run (body @ [newline])"
    by (simp add: ps_host_def ps_lines_def a b)
  moreover have "parse_gpus tail = []"
    by (simp add: parse_gpus_def gpu_lines_def c)
  moreover have "ps_host run tail = Inr []"
    by (simp add: ps_host_def ps_lines_def c)
  ultimately show ?thesis by (simp add: gpu_lines_def ps_lines_def)
qed

theorem last_segment_dropped_unconditionally_witness:
  "newline \<notin> set ''0, 45, 60, 2048, 8192''
   \<and> parse_gpus ''0, 45, 60, 2048, 8192'' = []
   \<and> ps_host (\<lambda>c. Inr ''NVIDIA_VISIBLE_DEVICES=all'') ''0, 45, 60, 2048, 8192'' = Inr []"
proof -
  have nl: "newline \<notin> set ''0, 45, 60, 2048, 8192''" by (simp add: newline_def)
  show ?thesis
    using nl last_segment_dropped_unconditionally [OF nl, of "[]" "[]"] by simp
qed

lemma parse_gpus_all:
  "parse_gpus stdout =
     map (\<lambda>l. zip gpu_field_names (split_comma_space l)) (butlast (split_lines stdout))"
  by (simp add: parse_gpus_def gpu_lines_def map_butlast [symmetric] dict_of_zip
      distinct_gpu_field_names)

lemma ps_containers_all:
  assumes "\<forall>l \<in> set lines. run (inspect_command (hd (split_comma_space l))) = Inr (out l)"
  shows "ps_containers run lines =
     Inr (map (\<lambda>l. zip ps_field_names (split_comma_space l) @ [(''GPU'', gpu_of_inspect (out l))])
            lines)"
  using assms
proof (induction lines)
  case Nil
  show ?case by simp
next
  case (Cons line lines)
  obtain v vs where v: "split_comma_space line = v # vs"
    using py_split_nonempty [of "CHR '',''" "'' ''" line]
    by (cases "split_comma_space line") (auto simp: split_comma_space_def)
  have r: "run (inspect_command v) = Inr (out line)" using Cons.prems v by simp
  have "\<forall>l \<in> set lines. run (inspect_command (hd (split_comma_space l))) = Inr (out l)"
    using Cons.prems by simp
  from Cons.IH [OF this] show ?case using v r by (simp add: container_gpu)
qed

lemma ps_host_all:
  assumes "\<forall>l \<in> set (ps_lines stdout).
             run (inspect_command (hd (split_comma_space l))) = Inr (out l)"
  shows "ps_host run stdout =
     Inr (map (\<lambda>l. zip ps_field_names (split_comma_space l) @ [(''GPU'', gpu_of_inspect (out l))])
            (ps_lines stdout))"
  using ps_containers_all [OF assms] by (simp add: ps_host_def Let_def)

lemma map_of_short_gpu_record:
  assumes "f \<in> set (drop n ps_field_names)"
  shows "map_of (zip (take n ps_field_names) vals @ [(''GPU'', g)]) f = None"
proof -
  have "f \<in> set ps_field_names" using assms by (rule in_set_dropD)
  then have "f \<noteq> ''GPU''" using gpu_not_ps_field by auto
  then show ?thesis
    using map_of_zip_take_absent [OF distinct_ps_field_names assms, of vals]
    by (simp add: map_add_def map_of_append)
qed

text \<open>
  Claim C5. In every output, a line that splits into fewer groups than there are declared
  fields is still zipped with the field names by position, wherever it stands in the
  listing: its record holds the first fields, one for each group, the trailing declared
  fields are absent from it, and no error is raised. Both parsers give one record for each
  line of the listing, in order; the container listing adds its derived field \<^verbatim>\<open>GPU\<close> and
  returns its records when the inspect commands of the listing return.
\<close>

theorem short_line_zips_positionally:
  assumes "lines = butlast (split_lines stdout)" and "i < length lines"
    and "vals = split_comma_space (lines ! i)" and "n = length vals"
  shows "parse_gpus stdout = map (\<lambda>l. zip gpu_field_names (split_comma_space l)) lines
       \<and> (n < length gpu_field_names \<longrightarrow>
            parse_gpus stdout ! i = zip (take n gpu_field_names) vals
          \<and> map fst (parse_gpus stdout ! i) = take n gpu_field_names
          \<and> (\<forall>f \<in> set (drop n gpu_field_names). map_of (parse_gpus stdout ! i) f = None))
       \<and> ((\<forall>l \<in> set lines. run (inspect_command (hd (split_comma_space l))) = Inr (out l)) \<longrightarrow>
            ps_host run stdout =
              Inr (map (\<lambda>l. zip ps_field_names (split_comma_space l)
                             @ [(''GPU'', gpu_of_inspect (out l))]) lines)
          \<and> (n < length ps_field_names \<longrightarrow>
               (\<exists>cs. ps_host run stdout = Inr cs \<and> length cs = length lines
                  \<and> cs ! i = zip (take n ps_field_names) vals
                             @ [(''GPU'', gpu_of_inspect (out (lines ! i)))]
                  \<and> map fst (cs ! i) = take n ps_field_names @ [''GPU'']
                  \<and> (\<forall>f \<in> set (drop n ps_field_names). map_of (cs ! i) f = None))))"
proof (intro conjI impI)
  show all: "parse_gpus stdout = map (\<lambda>l. zip gpu_field_names (split_comma_space l)) lines"
    unfolding assms(1) by (rule parse_gpus_all)
  {
    assume n: "n < length gpu_field_names"
    show g: "parse_gpus stdout ! i = zip (take n gpu_field_names) vals"
      using assms(2,3,4) zip_short [of gpu_field_names vals] by (simp add: all)
    show "map fst (parse_gpus stdout ! i) = take n gpu_field_names"
      unfolding g using assms(4) n by (simp add: map_fst_zip_take)
    show "\<forall>f \<in> set (drop n gpu_field_names). map_of (parse_gpus stdout ! i) f = None"
      unfolding g using map_of_zip_take_absent [OF distinct_gpu_field_names] by blast
  }
  {
    assume r: "\<forall>l \<in> set lines. run (inspect_command (hd (split_comma_space l))) = Inr (out l)"
    then have r': "\<forall>l \<in> set (ps_lines stdout).
        run (inspect_command (hd (split_comma_space l))) = Inr (out l)"
      by (simp add: assms(1) ps_lines_def)
    show h: "ps_host run stdout =
              Inr (map (\<lambda>l. zip ps_field_names (split_comma_space l)
                             @ [(''GPU'', gpu_of_inspect (out l))]) lines)"
      using ps_host_all [OF r'] by (simp add: assms(1) ps_lines_def)
    assume n: "n < length ps_field_names"
    let ?cs = "map (\<lambda>l. zip ps_field_names (split_comma_space l)
                             @ [(''GPU'', gpu_of_inspect (out l))]) lines"
    have c: "?cs ! i = zip (take n ps_field_names) vals
                             @ [(''GPU'', gpu_of_inspect (out (lines ! i)))]"
      using assms(2,3,4) zip_short [of ps_field_names vals] by simp
    have k: "map fst (?cs ! i) = take n ps_field_names @ [''GPU'']"
      unfolding c using assms(4) n by (simp add: map_fst_zip_take)
    have a: "\<forall>f \<in> set (drop n ps_field_names). map_of (?cs ! i) f = None"
      unfolding c by (intro ballI) (rule map_of_short_gpu_record)
    show "\<exists>cs. ps_host run stdout = Inr cs \<and> length cs = length lines
                  \<and> cs ! i = zip (take n ps_field_names) vals
                             @ [(''GPU'', gpu_of_inspect (out (lines ! i)))]
                  \<and> map fst (cs ! i) = take n ps_field_names @ [''GPU'']
                  \<and> (\<forall>f \<in> set (drop n ps_field_names). map_of (cs ! i) f = None)"
      using h c k a by (intro exI [of _ ?cs]) simp
  }
qed

theorem short_line_zips_positionally_witness:
  "butlast (split_lines (''a, b, c, d, e, f, g'' @ [newline] @ ''0, 45, 60'' @ [newline])) =
     [''a, b, c, d, e, f, g'', ''0, 45, 60'']
   \<and> length (split_comma_space ''0, 45, 60'') < length gpu_field_names
   \<and> length (split_comma_space ''0, 45, 60'') < length ps_field_names
   \<and> parse_gpus (''a, b, c, d, e, f, g'' @ [newline] @ ''0, 45, 60'' @ [newline]) =
       [[(''INDEX'', ''a''), (''UTIL (%)'', ''b''), (''TEMP ('' @ [CHR 0xB0] @ ''C)'', ''c''),
         (''USED (MiB)'', ''d''), (''TOTAL (MiB)'', ''e'')],
        [(''INDEX'', ''0''), (''UTIL (%)'', ''45''), (''TEMP ('' @ [CHR 0xB0] @ ''C)'', ''60'')]]
   \<and> ps_host (\<lambda>c. Inr []) (''a, b, c, d, e, f, g'' @ [newline] @ ''0, 45, 60'' @ [newline]) =
       Inr [[(''ID'', ''a''), (''Image'', ''b''), (''Command'', ''c''), (''RunningFor'', ''d''),
             (''Status'', ''e''), (''Ports'', ''f''), (''Names'', ''g''), (''GPU'', [])],
            [(''ID'', ''0''), (''Image'', ''45''), (''Command'', ''60''), (''GPU'', [])]]"
proof -
  let ?s = "''a, b, c, d, e, f, g'' @ [newline] @ ''0, 45, 60'' @ [newline]"
  let ?run = "\<lambda>c :: string. (Inr [] :: error + string)"
  let ?out = "\<lambda>l :: string. ([] :: string)"
  have ls: "butlast (split_lines ?s) = [''a, b, c, d, e, f, g'', ''0, 45, 60'']" by code_simp
  have i: "1 < length (butlast (split_lines ?s))" unfolding ls by simp
  have ng: "length (split_comma_space ''0, 45, 60'') < length gpu_field_names" by code_simp
  have np: "length (split_comma_space ''0, 45, 60'') < length ps_field_names" by code_simp
  have r: "\<forall>l \<in> set (butlast (split_lines ?s)).
             ?run (inspect_command (hd (split_comma_space l))) = Inr (?out l)" by simp
  have eg: "map (\<lambda>l. zip gpu_field_names (split_comma_space l))
              [''a, b, c, d, e, f, g'', ''0, 45, 60''] =
       [[(''INDEX'', ''a''), (''UTIL (%)'', ''b''), (''TEMP ('' @ [CHR 0xB0] @ ''C)'', ''c''),
         (''USED (MiB)'', ''d''), (''TOTAL (MiB)'', ''e'')],
        [(''INDEX'', ''0''), (''UTIL (%)'', ''45''), (''TEMP ('' @ [CHR 0xB0] @ ''C)'', ''60'')]]"
    by code_simp
  have ep: "map (\<lambda>l. zip ps_field_names (split_comma_space l) @ [(''GPU'', gpu_of_inspect (?out l))])
              [''a, b, c, d, e, f, g'', ''0, 45, 60''] =
       [[(''ID'', ''a''), (''Image'', ''b''), (''Command'', ''c''), (''RunningFor'', ''d''),
         (''Status'', ''e''), (''Ports'', ''f''), (''Names'', ''g''), (''GPU'', [])],
        [(''ID'', ''0''), (''Image'', ''45''), (''Command'', ''60''), (''GPU'', [])]]"
    by code_simp
  from short_line_zips_positionally [OF refl i refl refl, of ?run ?out] r
  have g: "parse_gpus ?s =
        map (\<lambda>l. zip gpu_field_names (split_comma_space l)) (butlast (split_lines ?s))"
    and p: "ps_host ?run ?s =
        Inr (map (\<lambda>l. zip ps_field_names (split_comma_space l)
                       @ [(''GPU'', gpu_of_inspect (?out l))]) (butlast (split_lines ?s)))"
    by blast+
  have g': "parse_gpus ?s =
       [[(''INDEX'', ''a''), (''UTIL (%)'', ''b''), (''TEMP ('' @ [CHR 0xB0] @ ''C)'', ''c''),
         (''USED (MiB)'', ''d''), (''TOTAL (MiB)'', ''e'')],
        [(''INDEX'', ''0''), (''UTIL (%)'', ''45''), (''TEMP ('' @ [CHR 0xB0] @ ''C)'', ''60'')]]"
    unfolding g ls eg ..
  have p': "ps_host ?run ?s =
       Inr [[(''ID'', ''a''), (''Image'', ''b''), (''Command'', ''c''), (''RunningFor'', ''d''),
             (''Status'', ''e''), (''Ports'', ''f''), (''Names'', ''g''), (''GPU'', [])],
            [(''ID'', ''0''), (''Image'', ''45''), (''Command'', ''60''), (''GPU'', [])]]"
    unfolding p ls ep ..
  show ?thesis by (intro conjI) (rule ls ng np g' p')+
qed

section \<open>The derived GPU field\<close>

lemma match_group_sound:
  assumes "match_group s = Some g"
  shows "is_gpu_value g \<and> prefix g s"
proof (cases "prefix ''all'' s")
  case True
  then show ?thesis using assms by (simp add: match_group_def is_gpu_value_def)
next
  case False
  then have g: "takeWhile is_digit s = g" and ne: "g \<noteq> []"
    using assms by (auto simp: match_group_def split: list.splits)
  have "list_all is_digit g"
    using g by (auto simp: list_all_iff dest: set_takeWhileD)
  moreover have "prefix g s"
    using g takeWhile_dropWhile_id [of is_digit s] by (metis prefixI)
  ultimately show ?thesis using ne by (simp add: is_gpu_value_def)
qed

lemma match_group_complete:
  assumes "is_gpu_value v"
  shows "match_group (v @ post) \<noteq> None"
proof (cases "prefix ''all'' (v @ post)")
  case True
  then show ?thesis by (simp add: match_group_def)
next
  case False
  then have "v \<noteq> ''all''" by auto
  then obtain d ds where v: "v = d # ds" and d: "is_digit d"
    using assms by (cases v) (auto simp: is_gpu_value_def)
  then show ?thesis using False by (simp add: match_group_def)
qed

lemma match_here_sound:
  assumes "match_here s = Some g"
  shows "is_gpu_value g \<and> (\<exists>post. s = gpu_key @ g @ post)"
proof -
  from assms have k: "prefix gpu_key s" and m: "match_group (drop (length gpu_key) s) = Some g"
    by (auto simp: match_here_def split: if_splits)
  from k obtain t where t: "s = gpu_key @ t" by (auto simp: prefix_def)
  with m have "match_group t = Some g" by simp
  from match_group_sound [OF this] obtain post where "is_gpu_value g" "t = g @ post"
    by (auto simp: prefix_def)
  with t show ?thesis by auto
qed

lemma match_here_complete:
  "is_gpu_value v \<Longrightarrow> match_here (gpu_key @ v @ post) \<noteq> None"
  by (simp add: match_here_def match_group_complete)

lemma re_search_here: "match_here s = Some g \<Longrightarrow> re_search s = Some g"
  by (cases s) auto

lemma re_search_sound:
  "re_search s = Some g \<Longrightarrow> is_gpu_value g \<and> (\<exists>pre post. s = pre @ gpu_key @ g @ post)"
proof (induction s)
  case Nil
  then show ?case using match_here_sound [of "[]" g] by (auto intro: exI [of _ "[]"])
next
  case (Cons c cs)
  show ?case
  proof (cases "match_here (c # cs)")
    case None
    with Cons.prems have "re_search cs = Some g" by simp
    from Cons.IH [OF this] obtain pre post where "is_gpu_value g" "cs = pre @ gpu_key @ g @ post"
      by blast
    then have "is_gpu_value g" "c # cs = (c # pre) @ gpu_key @ g @ post" by simp_all
    then show ?thesis by blast
  next
    case (Some h)
    with Cons.prems have "h = g" by simp
    with Some match_here_sound [of "c # cs" g] obtain post
      where "is_gpu_value g" "c # cs = [] @ gpu_key @ g @ post" by auto
    then show ?thesis by blast
  qed
qed

lemma re_search_complete:
  "is_gpu_value v \<Longrightarrow> re_search (pre @ gpu_key @ v @ post) \<noteq> None"
proof (induction pre)
  case Nil
  then obtain g where "match_here (gpu_key @ v @ post) = Some g"
    using match_here_complete [of v post] by auto
  then show ?case by (simp add: re_search_here)
next
  case (Cons c pre)
  then show ?case by (cases "match_here (c # pre @ gpu_key @ v @ post)") auto
qed

lemma ps_containers_total:
  assumes "\<And>cmd. \<exists>out. run cmd = Inr out"
  shows "\<exists>cs. ps_containers run lines = Inr cs \<and> length cs = length lines"
proof (induction lines)
  case Nil
  show ?case by simp
next
  case (Cons line lines)
  obtain v vs where v: "split_comma_space line = v # vs"
    using py_split_nonempty [of "CHR '',''" "'' ''" line]
    by (cases "split_comma_space line") (auto simp: split_comma_space_def)
  obtain out where out: "run (inspect_command v) = Inr out" using assms by blast
  from Cons obtain cs where cs: "ps_containers run lines = Inr cs" "length cs = length lines"
    by blast
  show ?case using v out cs by simp
qed

lemma ps_host_total:
  assumes "\<And>cmd. \<exists>out. run cmd = Inr out"
  shows "\<exists>cs. ps_host run stdout = Inr cs"
  using ps_containers_total [where run = run and lines = "ps_lines stdout"] assms
  by (auto simp: ps_host_def Let_def)

text \<open>
  Claim C4. The derived GPU field is the value found by the search for
  \<^verbatim>\<open>NVIDIA_VISIBLE_DEVICES=value\<close>, where the value is the literal \<^verbatim>\<open>all\<close> or a non-empty
  string of digits. When the inspect output holds no such text the field is the empty
  string; when it holds one the field is such a value, found in the output after the key.
  The extraction has no error of its own: a line whose inspect command returns gives a
  record with the field, and a host all of whose inspect commands return gives its records.
\<close>

theorem gpu_field_extraction:
  "gpu_of_inspect out = (case re_search out of Some g \<Rightarrow> g | None \<Rightarrow> [])
   \<and> (re_search out = None \<longleftrightarrow>
        \<not> (\<exists>pre v post. out = pre @ gpu_key @ v @ post \<and> is_gpu_value v))
   \<and> (\<not> (\<exists>pre v post. out = pre @ gpu_key @ v @ post \<and> is_gpu_value v) \<longrightarrow>
        gpu_of_inspect out = [])
   \<and> ((\<exists>pre v post. out = pre @ gpu_key @ v @ post \<and> is_gpu_value v) \<longrightarrow>
        is_gpu_value (gpu_of_inspect out)
        \<and> (\<exists>pre post. out = pre @ gpu_key @ gpu_of_inspect out @ post))
   \<and> (newline \<notin> set line \<and> run (inspect_command (hd (split_comma_space line))) = Inr out \<longrightarrow>
        ps_host run (line @ [newline]) =
          Inr [zip ps_field_names (split_comma_space line) @ [(''GPU'', gpu_of_inspect out)]])
   \<and> ((\<forall>cmd. \<exists>out'. run' cmd = Inr out') \<longrightarrow> (\<exists>cs. ps_host run' stdout = Inr cs))"
proof -
  have d: "gpu_of_inspect out = (case re_search out of Some g \<Rightarrow> g | None \<Rightarrow> [])"
    by (simp add: gpu_of_inspect_def)
  have n: "re_search out = None \<longleftrightarrow>
        \<not> (\<exists>pre v post. out = pre @ gpu_key @ v @ post \<and> is_gpu_value v)"
  proof
    assume "re_search out = None"
    then show "\<not> (\<exists>pre v post. out = pre @ gpu_key @ v @ post \<and> is_gpu_value v)"
      using re_search_complete by blast
  next
    assume a: "\<not> (\<exists>pre v post. out = pre @ gpu_key @ v @ post \<and> is_gpu_value v)"
    show "re_search out = None"
    proof (cases "re_search out")
      case None
      then show ?thesis .
    next
      case (Some g)
      from re_search_sound [OF this] a show ?thesis by blast
    qed
  qed
  have e: "\<not> (\<exists>pre v post. out = pre @ gpu_key @ v @ post \<and> is_gpu_value v) \<longrightarrow>
        gpu_of_inspect out = []"
  proof
    assume "\<not> (\<exists>pre v post. out = pre @ gpu_key @ v @ post \<and> is_gpu_value v)"
    then have "re_search out = None" using n by blast
    then show "gpu_of_inspect out = []" by (simp add: gpu_of_inspect_def)
  qed
  have m: "(\<exists>pre v post. out = pre @ gpu_key @ v @ post \<and> is_gpu_value v) \<longrightarrow>
        is_gpu_value (gpu_of_inspect out)
        \<and> (\<exists>pre post. out = pre @ gpu_key @ gpu_of_inspect out @ post)"
  proof
    assume "\<exists>pre v post. out = pre @ gpu_key @ v @ post \<and> is_gpu_value v"
    then obtain g where g: "re_search out = Some g" using n by (cases "re_search out") auto
    from re_search_sound [OF g] g
    show "is_gpu_value (gpu_of_inspect out)
        \<and> (\<exists>pre post. out = pre @ gpu_key @ gpu_of_inspect out @ post)"
      by (simp add: gpu_of_inspect_def)
  qed
  have p: "newline \<notin> set line \<and> run (inspect_command (hd (split_comma_space line))) = Inr out \<longrightarrow>
        ps_host run (line @ [newline]) =
          Inr [zip ps_field_names (split_comma_space line) @ [(''GPU'', gpu_of_inspect out)]]"
    using ps_host_one_line by blast
  have t: "(\<forall>cmd. \<exists>out'. run' cmd = Inr out') \<longrightarrow> (\<exists>cs. ps_host run' stdout = Inr cs)"
    using ps_host_total [of run' stdout] by blast
  show ?thesis using d n e m p t by blast
qed

theorem gpu_field_extraction_witness:
  "re_search ''[PATH=/usr/bin HOME=/root]'' = None
   \<and> gpu_of_inspect ''[PATH=/usr/bin HOME=/root]'' = []
   \<and> is_gpu_value (gpu_of_inspect ''[PATH=/usr/bin NVIDIA_VISIBLE_DEVICES=all]'')
   \<and> newline \<notin> set ''abc123, nginx, nginx -g, 2 days, Up, 80/tcp, web1''
   \<and> ps_host (\<lambda>cmd. Inr ''[PATH=/usr/bin NVIDIA_VISIBLE_DEVICES=all]'')
       (''abc123, nginx, nginx -g, 2 days, Up, 80/tcp, web1'' @ [newline]) =
     Inr [[(''ID'', ''abc123''), (''Image'', ''nginx''), (''Command'', ''nginx -g''),
           (''RunningFor'', ''2 days''), (''Status'', ''Up''), (''Ports'', ''80/tcp''),
           (''Names'', ''web1''), (''GPU'', ''all'')]]
   \<and> ps_host (\<lambda>cmd. Inr ''[PATH=/usr/bin HOME=/root]'')
       (''abc123, nginx, nginx -g, 2 days, Up, 80/tcp, web1'' @ [newline]) =
     Inr [[(''ID'', ''abc123''), (''Image'', ''nginx''), (''Command'', ''nginx -g''),
           (''RunningFor'', ''2 days''), (''Status'', ''Up''), (''Ports'', ''80/tcp''),
           (''Names'', ''web1''), (''GPU'', [])]]"
proof -
  let ?line = "''abc123, nginx, nginx -g, 2 days, Up, 80/tcp, web1''"
  let ?none = "''[PATH=/usr/bin HOME=/root]''"
  let ?all = "''[PATH=/usr/bin NVIDIA_VISIBLE_DEVICES=all]''"
  have nl: "newline \<notin> set ?line" by (simp add: newline_def)
  have rn: "re_search ?none = None" by code_simp
  have ga: "gpu_of_inspect ?all = ''all''" by code_simp
  have sp: "zip ps_field_names (split_comma_space ?line) =
     [(''ID'', ''abc123''), (''Image'', ''nginx''), (''Command'', ''nginx -g''),
      (''RunningFor'', ''2 days''), (''Status'', ''Up''), (''Ports'', ''80/tcp''),
      (''Names'', ''web1'')]" by code_simp
  have ex: "\<exists>pre v post. ?all = pre @ gpu_key @ v @ post \<and> is_gpu_value v"
    by (rule exI [of _ "''[PATH=/usr/bin ''"], rule exI [of _ "''all''"], rule exI [of _ "'']''"])
       (simp add: gpu_key_def is_gpu_value_def)
  have gn: "gpu_of_inspect ?none = []"
    using gpu_field_extraction [of ?none ?line "\<lambda>cmd. Inr ?none"] rn by blast
  have va: "is_gpu_value (gpu_of_inspect ?all)"
    using gpu_field_extraction [of ?all ?line "\<lambda>cmd. Inr ?all"] ex by blast
  have pa: "ps_host (\<lambda>cmd. Inr ?all) (?line @ [newline]) =
          Inr [zip ps_field_names (split_comma_space ?line) @ [(''GPU'', gpu_of_inspect ?all)]]"
    using gpu_field_extraction [of ?all ?line "\<lambda>cmd. Inr ?all"] nl by blast
  have pn: "ps_host (\<lambda>cmd. Inr ?none) (?line @ [newline]) =
          Inr [zip ps_field_names (split_comma_space ?line) @ [(''GPU'', gpu_of_inspect ?none)]]"
    using gpu_field_extraction [of ?none ?line "\<lambda>cmd. Inr ?none"] nl by blast
  have ca: "ps_host (\<lambda>cmd. Inr ?all) (?line @ [newline]) =
     Inr [[(''ID'', ''abc123''), (''Image'', ''nginx''), (''Command'', ''nginx -g''),
           (''RunningFor'', ''2 days''), (''Status'', ''Up''), (''Ports'', ''80/tcp''),
           (''Names'', ''web1''), (''GPU'', ''all'')]]"
    unfolding pa sp ga by simp
  have cn: "ps_host (\<lambda>cmd. Inr ?none) (?line @ [newline]) =
     Inr [[(''ID'', ''abc123''), (''Image'', ''nginx''), (''Command'', ''nginx -g''),
           (''RunningFor'', ''2 days''), (''Status'', ''Up''), (''Ports'', ''80/tcp''),
           (''Names'', ''web1''), (''GPU'', [])]]"
    unfolding pn sp gn by simp
  show ?thesis
    by (intro conjI) (rule rn gn va nl ca cn)+
qed

lemma re_search_skip: "CHR ''N'' \<notin> set pre \<Longrightarrow> re_search (pre @ s) = re_search s"
  by (induction pre) (auto simp: match_here_def gpu_key_def)

lemma match_group_digits:
  assumes "ds \<noteq> []" and "list_all is_digit ds" and "\<not> is_digit c"
  shows "match_group (ds @ c # rest) = Some ds"
proof -
  obtain d ds' where ds: "ds = d # ds'" using assms(1) by (cases ds) auto
  have "is_digit d" using assms(2) ds by simp
  then have "d \<noteq> CHR ''a''" by (auto simp: is_digit_def)
  then have np: "\<not> prefix ''all'' (ds @ c # rest)" using ds by simp
  have tw: "takeWhile is_digit (ds @ c # rest) = ds"
    using assms(2,3) by (simp add: list_all_iff takeWhile_append2)
  have "match_group (ds @ c # rest) =
        (case takeWhile is_digit (ds @ c # rest) of [] \<Rightarrow> None | x # xs \<Rightarrow> Some (x # xs))"
    using np by (simp only: match_group_def if_False)
  also have "\<dots> = Some ds"
    by (simp only: tw) (simp add: ds)
  finally show ?thesis .
qed

text \<open>
  Claim C10. When the value of \<^verbatim>\<open>NVIDIA_VISIBLE_DEVICES\<close> starts with a run of digits
  followed by a character that is not a digit, as in the list \<^verbatim>\<open>0,1\<close>, the derived GPU
  field is that leading run of digits only: neither the full value nor the empty string.
\<close>

theorem gpu_field_leading_digit_run:
  assumes "CHR ''N'' \<notin> set pre" and "ds \<noteq> []" and "list_all is_digit ds" and "\<not> is_digit c"
  shows "gpu_of_inspect (pre @ gpu_key @ ds @ c # rest) = ds"
proof -
  have "match_here (gpu_key @ ds @ c # rest) = Some ds"
    using match_group_digits [OF assms(2,3,4)] by (simp add: match_here_def)
  then have "re_search (gpu_key @ ds @ c # rest) = Some ds" by (rule re_search_here)
  then show ?thesis using re_search_skip [OF assms(1)] by (simp add: gpu_of_inspect_def)
qed

theorem gpu_field_leading_digit_run_witness:
  "CHR ''N'' \<notin> set [] \<and> ''0'' \<noteq> [] \<and> list_all is_digit ''0'' \<and> \<not> is_digit CHR '',''
   \<and> gpu_of_inspect ''NVIDIA_VISIBLE_DEVICES=0,1'' = ''0''
   \<and> gpu_of_inspect ''NVIDIA_VISIBLE_DEVICES=0,1'' \<noteq> ''0,1''
   \<and> gpu_of_inspect ''NVIDIA_VISIBLE_DEVICES=0,1'' \<noteq> []"
proof -
  have a: "CHR ''N'' \<notin> set []" by simp
  have b: "''0'' \<noteq> []" by simp
  have c: "list_all is_digit ''0''" by (simp add: is_digit_def)
  have d: "\<not> is_digit CHR '',''" by (simp add: is_digit_def)
  show ?thesis
    using a c d gpu_field_leading_digit_run [OF a b c d, of "''1''"] by (simp add: gpu_key_def)
qed

section \<open>The records of the container listing\<close>

lemma set_update_cases:
  "p \<in> set (AList.update k v al) \<Longrightarrow> p = (k, v) \<or> p \<in> set al"
  by (induction al) (auto split: if_splits)

lemma ps_containers_records:
  "ps_containers run lines = Inr cs \<Longrightarrow> r \<in> set cs \<Longrightarrow>
   \<exists>vals out. r = zip ps_field_names vals @ [(''GPU'', gpu_of_inspect out)]"
proof (induction lines arbitrary: cs)
  case Nil
  then show ?case by simp
next
  case (Cons line lines)
  from Cons.prems(1) obtain out cs' where
    cs: "cs = AList.update ''GPU'' (gpu_of_inspect out) (container_of (split_comma_space line)) # cs'"
    and rest: "ps_containers run lines = Inr cs'"
    by (auto simp: Let_def split: list.splits sum.splits)
  show ?case
  proof (cases "r \<in> set cs'")
    case True
    with Cons.IH [OF rest] show ?thesis by blast
  next
    case False
    with Cons.prems(2) cs
    have "r = zip ps_field_names (split_comma_space line) @ [(''GPU'', gpu_of_inspect out)]"
      by (simp add: container_gpu)
    then show ?thesis by blast
  qed
qed

lemma ps_host_records:
  "ps_host run stdout = Inr cs \<Longrightarrow> r \<in> set cs \<Longrightarrow>
   \<exists>vals out. r = zip ps_field_names vals @ [(''GPU'', gpu_of_inspect out)]"
  using ps_containers_records [of run "ps_lines stdout" cs r]
  by (auto simp: ps_host_def Let_def split: if_splits)

lemma ps_data_entries:
  "ps_data run results data0 = Inr data \<Longrightarrow> (h, cs) \<in> set data \<Longrightarrow>
   (h, cs) \<in> set data0 \<or> (\<exists>stdout. (h, stdout) \<in> set results \<and> ps_host (run h) stdout = Inr cs)"
proof (induction results arbitrary: data0)
  case Nil
  then show ?case by simp
next
  case (Cons res results)
  obtain c out where res: "res = (c, out)" by (cases res)
  from Cons.prems(1) res obtain cont where
    cont: "ps_host (run c) out = Inr cont"
    and rest: "ps_data run results (AList.update c cont data0) = Inr data"
    by (auto split: sum.splits)
  from Cons.IH [OF rest Cons.prems(2)]
  consider "(h, cs) \<in> set (AList.update c cont data0)"
    | "\<exists>stdout. (h, stdout) \<in> set results \<and> ps_host (run h) stdout = Inr cs"
    by blast
  then show ?case
  proof cases
    case 1
    from set_update_cases [OF this] show ?thesis using cont res by auto
  next
    case 2
    then show ?thesis by auto
  qed
qed

lemma zip_take_fields: "zip fs vals = zip fs (take (length fs) vals)"
  by (induction fs vals rule: list_induct2') auto

lemma emit_rows_members:
  "row \<in> set (emit_rows fs xs) \<Longrightarrow>
   \<exists>h rs r. (h, rs) \<in> set xs \<and> r \<in> set rs \<and> row = row_of fs r"
proof (induction xs)
  case Nil
  then show ?case by simp
next
  case (Cons x xs)
  obtain h rs where x: "x = (h, rs)" by (cases x)
  show ?case
  proof (cases "row \<in> set (emit_rows fs xs)")
    case True
    from Cons.IH [OF this] show ?thesis by auto
  next
    case False
    with Cons.prems x obtain r where "r \<in> set rs" "row = row_of fs r" by auto
    with x show ?thesis by auto
  qed
qed

lemma ps_record_row:
  assumes "r = zip ps_field_names vs @ [(''GPU'', g)]"
  shows "filter (\<lambda>(k, v). k \<notin> set (ps_field_names @ [''GPU''])) r = []"
    and "row_of (ps_field_names @ [''GPU'']) r = map (cell_value r) (ps_field_names @ [''GPU''])"
proof -
  have "fst ` set r \<subseteq> set (ps_field_names @ [''GPU''])"
    using assms by (auto dest: set_zip_leftD)
  then show f: "filter (\<lambda>(k, v). k \<notin> set (ps_field_names @ [''GPU''])) r = []"
    by (auto simp: filter_empty_conv)
  show "row_of (ps_field_names @ [''GPU'']) r = map (cell_value r) (ps_field_names @ [''GPU''])"
    using f by (simp add: row_of_def)
qed

text \<open>
  Claim C9. Every record of the container listing has its keys among the seven declared
  field names and the derived key \<^verbatim>\<open>GPU\<close>, and has the key \<^verbatim>\<open>GPU\<close>. The groups of a line
  beyond the seventh are discarded by the zip, so no record has a field outside the
  header list \<^verbatim>\<open>field_names + ['GPU']\<close> given to the table, and every row of the table
  of \<^verbatim>\<open>ps\<close> has one cell for each header and no extra trailing cell.
\<close>

theorem container_record_keys:
  assumes "ps_data run results [] = Inr data" and "(h, containers) \<in> set data"
    and "r \<in> set containers"
  shows "set (map fst r) \<subseteq> set ps_field_names \<union> {''GPU''}
       \<and> ''GPU'' \<in> set (map fst r)
       \<and> distinct (map fst r)
       \<and> length r \<le> length (ps_field_names @ [''GPU''])
       \<and> filter (\<lambda>(k, v). k \<notin> set (ps_field_names @ [''GPU''])) r = []
       \<and> row_of (ps_field_names @ [''GPU'']) r = map (cell_value r) (ps_field_names @ [''GPU''])
       \<and> container_of vals = container_of (take (length ps_field_names) vals)
       \<and> ps run results = Inr (construct_table (ps_field_names @ [''GPU'']) data)
       \<and> (\<forall>row \<in> set (rows (construct_table (ps_field_names @ [''GPU'']) data)).
             length row = length (ps_field_names @ [''GPU'']))"
proof -
  from ps_data_entries [OF assms(1,2)] obtain stdout
    where "ps_host (run h) stdout = Inr containers" by auto
  from ps_host_records [OF this assms(3)] obtain vs out
    where r: "r = zip ps_field_names vs @ [(''GPU'', gpu_of_inspect out)]" by blast
  have keys: "map fst r = take (length vs) ps_field_names @ [''GPU'']"
    using r by (simp add: map_fst_zip_take min_def)
  have sub: "set (map fst r) \<subseteq> set ps_field_names \<union> {''GPU''}"
    unfolding keys by (auto dest: in_set_takeD)
  have gpu: "''GPU'' \<in> set (map fst r)" unfolding keys by simp
  have dist: "distinct (map fst r)"
    unfolding keys using distinct_ps_field_names gpu_not_ps_field
    by (auto dest: in_set_takeD)
  have len: "length r \<le> length (ps_field_names @ [''GPU''])"
    using r by simp
  note fil = ps_record_row(1) [OF r] and row = ps_record_row(2) [OF r]
  have cut: "container_of vals = container_of (take (length ps_field_names) vals)"
    using zip_take_fields [of ps_field_names vals] by (simp add: container_of_def)
  have tab: "ps run results = Inr (construct_table (ps_field_names @ [''GPU'']) data)"
    using assms(1) by (simp add: ps_def)
  have wid: "\<forall>row \<in> set (rows (construct_table (ps_field_names @ [''GPU'']) data)).
             length row = length (ps_field_names @ [''GPU''])"
  proof
    fix row
    assume "row \<in> set (rows (construct_table (ps_field_names @ [''GPU'']) data))"
    then have "row \<in> set (emit_rows (ps_field_names @ [''GPU'']) (sort_key fst data))"
      by (simp add: construct_table_def Let_def)
    from emit_rows_members [OF this] obtain h' cs' r'
      where m: "(h', cs') \<in> set data" "r' \<in> set cs'"
        and row': "row = row_of (ps_field_names @ [''GPU'']) r'" by auto
    from ps_data_entries [OF assms(1) m(1)] obtain stdout'
      where "ps_host (run h') stdout' = Inr cs'" by auto
    from ps_host_records [OF this m(2)] obtain vs' out'
      where "r' = zip ps_field_names vs' @ [(''GPU'', gpu_of_inspect out')]" by blast
    from ps_record_row(2) [OF this] row'
    show "length row = length (ps_field_names @ [''GPU''])" by simp
  qed
  show ?thesis using sub gpu dist len fil row cut tab wid by blast
qed

theorem container_record_keys_witness:
  "ps_data (\<lambda>h cmd. Inr ''[NVIDIA_VISIBLE_DEVICES=all]'')
     [(''h1'', ''a, b, c, d, e, f, g, x, y'' @ [newline])] [] =
     Inr [(''h1'', [[(''ID'', ''a''), (''Image'', ''b''), (''Command'', ''c''),
                     (''RunningFor'', ''d''), (''Status'', ''e''), (''Ports'', ''f''),
                     (''Names'', ''g''), (''GPU'', ''all'')]])]
   \<and> row_of (ps_field_names @ [''GPU''])
        [(''ID'', ''a''), (''Image'', ''b''), (''Command'', ''c''), (''RunningFor'', ''d''),
         (''Status'', ''e''), (''Ports'', ''f''), (''Names'', ''g''), (''GPU'', ''all'')] =
      [''a'', ''b'', ''c'', ''d'', ''e'', ''f'', ''g'', ''all'']"
proof -
  let ?run = "\<lambda>(h :: host) (cmd :: string). (Inr ''[NVIDIA_VISIBLE_DEVICES=all]'' :: error + string)"
  let ?r = "[(''ID'', ''a''), (''Image'', ''b''), (''Command'', ''c''), (''RunningFor'', ''d''),
         (''Status'', ''e''), (''Ports'', ''f''), (''Names'', ''g''), (''GPU'', ''all'')]"
  have d: "ps_data ?run [(''h1'', ''a, b, c, d, e, f, g, x, y'' @ [newline])] [] =
           Inr [(''h1'', [?r])]"
    by code_simp
  have m: "(''h1'', [?r]) \<in> set [(''h1'', [?r])]" "?r \<in> set [?r]" by simp_all
  have c: "map (cell_value ?r) (ps_field_names @ [''GPU'']) =
           [''a'', ''b'', ''c'', ''d'', ''e'', ''f'', ''g'', ''all'']"
    by code_simp
  from container_record_keys [OF d m]
  have "row_of (ps_field_names @ [''GPU'']) ?r = map (cell_value ?r) (ps_field_names @ [''GPU''])"
    by blast
  with c d show ?thesis by simp
qed

section \<open>The host list\<close>

lemma interpolate_plain:
  assumes "CHR ''%'' \<notin> set v" and "depth \<le> MAX_INTERPOLATION_DEPTH"
  shows "interpolate_some defaults depth v = Inr v"
proof -
  have "from_percent v = []"
    using assms(1) unfolding from_percent_def by (auto simp: dropWhile_eq_Nil_conv)
  then show ?thesis
    using assms(2) by (subst interpolate_some.simps) simp
qed

lemma config_default_plain:
  assumes "config (optionxform key) = Some v" and "CHR ''%'' \<notin> set v"
  shows "config_default config key = Inr v"
  using assms interpolate_plain [of v 1 config]
  by (simp add: config_default_def before_get_def MAX_INTERPOLATION_DEPTH_def)

lemma cli_returns:
  assumes "config_default config ''common'' = Inr common"
    and "config_default config ''user'' = Inr u"
    and "short_hosts config hosts_opt = Inr hs"
  shows "cli config hosts_opt = Inr \<lparr>hosts = map (\<lambda>h. h @ ''.'' @ common) hs, user = u\<rparr>"
  using assms by (simp add: cli_def)

lemma cli_returned:
  assumes "cli config hosts_opt = Inr ctx"
  shows "\<exists>hs common. short_hosts config hosts_opt = Inr hs
           \<and> config_default config ''common'' = Inr common
           \<and> config_default config ''user'' = Inr (user ctx)
           \<and> hosts ctx = map (\<lambda>h. h @ ''.'' @ common) hs"
  using assms by (auto simp: cli_def split: sum.splits)

text \<open>
  Claim C7, as amended. The host list that \<^verbatim>\<open>cli\<close> passes on is computed as follows: when
  the option \<^verbatim>\<open>--hosts\<close> is given with a non-empty value, the value is split on commas;
  when it is absent or empty, the configured default host list is split on whitespace. In
  both cases each short name gets the configured common domain suffix appended after a
  dot. The configured values are those the accesses \<^verbatim>\<open>config['DEFAULT'][key]\<close> return,
  which is the raw value of the option when it has no percent sign; \<^verbatim>\<open>cli\<close> returns
  exactly when the accesses it makes return.
\<close>

theorem cli_host_list:
  "(cli config hosts_opt = Inr ctx \<longrightarrow>
      (\<exists>common. config_default config ''common'' = Inr common
         \<and> config_default config ''user'' = Inr (user ctx)
         \<and> (\<forall>c cs. hosts_opt = Some (c # cs) \<longrightarrow>
               hosts ctx = map (\<lambda>h. h @ ''.'' @ common) (split_comma (c # cs)))
         \<and> (hosts_opt = None \<or> hosts_opt = Some [] \<longrightarrow>
               (\<exists>dflt. config_default config ''hosts'' = Inr dflt
                  \<and> hosts ctx = map (\<lambda>h. h @ ''.'' @ common) (split_whitespace dflt)))))
   \<and> (config_default config ''common'' = Inr common' \<and> config_default config ''user'' = Inr u \<longrightarrow>
        (hosts_opt = Some (c # cs) \<longrightarrow>
           cli config hosts_opt =
             Inr \<lparr>hosts = map (\<lambda>h. h @ ''.'' @ common') (split_comma (c # cs)), user = u\<rparr>)
      \<and> ((hosts_opt = None \<or> hosts_opt = Some []) \<and> config_default config ''hosts'' = Inr dflt \<longrightarrow>
           cli config hosts_opt =
             Inr \<lparr>hosts = map (\<lambda>h. h @ ''.'' @ common') (split_whitespace dflt), user = u\<rparr>))
   \<and> (config (optionxform key) = Some v \<and> CHR ''%'' \<notin> set v \<longrightarrow>
        config_default config key = Inr v)"
proof (intro conjI impI)
  assume r: "cli config hosts_opt = Inr ctx"
  from cli_returned [OF r] obtain hs common
    where sh: "short_hosts config hosts_opt = Inr hs"
      and co: "config_default config ''common'' = Inr common"
      and us: "config_default config ''user'' = Inr (user ctx)"
      and ho: "hosts ctx = map (\<lambda>h. h @ ''.'' @ common) hs" by blast
  have a: "\<forall>c cs. hosts_opt = Some (c # cs) \<longrightarrow>
               hosts ctx = map (\<lambda>h. h @ ''.'' @ common) (split_comma (c # cs))"
    using sh ho by (auto simp: short_hosts_def)
  have b: "hosts_opt = None \<or> hosts_opt = Some [] \<longrightarrow>
               (\<exists>dflt. config_default config ''hosts'' = Inr dflt
                  \<and> hosts ctx = map (\<lambda>h. h @ ''.'' @ common) (split_whitespace dflt))"
    using sh ho by (auto simp: short_hosts_def split: sum.splits option.splits list.splits)
  show "\<exists>common. config_default config ''common'' = Inr common
         \<and> config_default config ''user'' = Inr (user ctx)
         \<and> (\<forall>c cs. hosts_opt = Some (c # cs) \<longrightarrow>
               hosts ctx = map (\<lambda>h. h @ ''.'' @ common) (split_comma (c # cs)))
         \<and> (hosts_opt = None \<or> hosts_opt = Some [] \<longrightarrow>
               (\<exists>dflt. config_default config ''hosts'' = Inr dflt
                  \<and> hosts ctx = map (\<lambda>h. h @ ''.'' @ common) (split_whitespace dflt)))"
    using co us a b by blast
next
  assume k: "config_default config ''common'' = Inr common' \<and> config_default config ''user'' = Inr u"
    and h: "hosts_opt = Some (c # cs)"
  have "short_hosts config hosts_opt = Inr (split_comma (c # cs))"
    using h by (simp add: short_hosts_def)
  with k show "cli config hosts_opt =
      Inr \<lparr>hosts = map (\<lambda>h. h @ ''.'' @ common') (split_comma (c # cs)), user = u\<rparr>"
    by (simp add: cli_returns)
next
  assume k: "config_default config ''common'' = Inr common' \<and> config_default config ''user'' = Inr u"
    and h: "(hosts_opt = None \<or> hosts_opt = Some []) \<and> config_default config ''hosts'' = Inr dflt"
  have "short_hosts config hosts_opt = Inr (split_whitespace dflt)"
    using h by (auto simp: short_hosts_def)
  with k show "cli config hosts_opt =
      Inr \<lparr>hosts = map (\<lambda>h. h @ ''.'' @ common') (split_whitespace dflt), user = u\<rparr>"
    by (simp add: cli_returns)
next
  assume "config (optionxform key) = Some v \<and> CHR ''%'' \<notin> set v"
  then show "config_default config key = Inr v" by (simp add: config_default_plain)
qed

theorem cli_host_list_witness:
  "cli (map_of [(''hosts'', ''alpha beta''), (''common'', ''%(dom)s.org''), (''dom'', ''lab''),
                (''user'', ''u'')]) (Some ''gamma,delta'') =
     Inr \<lparr>hosts = [''gamma.lab.org'', ''delta.lab.org''], user = ''u''\<rparr>
   \<and> cli (map_of [(''hosts'', ''alpha beta''), (''common'', ''%(dom)s.org''), (''dom'', ''lab''),
                (''user'', ''u'')]) None =
     Inr \<lparr>hosts = [''alpha.lab.org'', ''beta.lab.org''], user = ''u''\<rparr>
   \<and> cli (map_of [(''hosts'', ''alpha beta''), (''common'', ''%(dom)s.org''), (''dom'', ''lab''),
                (''user'', ''u'')]) (Some []) =
     Inr \<lparr>hosts = [''alpha.lab.org'', ''beta.lab.org''], user = ''u''\<rparr>
   \<and> cli (map_of [(''hosts'', ''alpha beta''), (''common'', ''lab%org''), (''user'', ''u'')]) None =
     Inl InterpolationSyntaxError"
proof -
  let ?cfg = "map_of [(''hosts'', ''alpha beta''), (''common'', ''%(dom)s.org''), (''dom'', ''lab''),
                (''user'', ''u'')]"
  have c: "config_default ?cfg ''common'' = Inr ''lab.org''" by code_simp
  have u: "config_default ?cfg ''user'' = Inr ''u''" by code_simp
  have h: "config_default ?cfg ''hosts'' = Inr ''alpha beta''" by code_simp
  have sc: "split_comma ''gamma,delta'' = [''gamma'', ''delta'']" by code_simp
  have sw: "split_whitespace ''alpha beta'' = [''alpha'', ''beta'']" by code_simp
  have a: "cli ?cfg (Some ''gamma,delta'') =
      Inr \<lparr>hosts = map (\<lambda>h. h @ ''.'' @ ''lab.org'') (split_comma ''gamma,delta''), user = ''u''\<rparr>"
    using cli_host_list [of ?cfg "Some ''gamma,delta''" _ "''lab.org''" "''u''" "CHR ''g''"
        "''amma,delta''"] c u by blast
  have b: "cli ?cfg None =
      Inr \<lparr>hosts = map (\<lambda>h. h @ ''.'' @ ''lab.org'') (split_whitespace ''alpha beta''), user = ''u''\<rparr>"
    using cli_host_list [of ?cfg None _ "''lab.org''" "''u''" _ _ "''alpha beta''"] c u h by blast
  have e: "cli ?cfg (Some []) =
      Inr \<lparr>hosts = map (\<lambda>h. h @ ''.'' @ ''lab.org'') (split_whitespace ''alpha beta''), user = ''u''\<rparr>"
    using cli_host_list [of ?cfg "Some []" _ "''lab.org''" "''u''" _ _ "''alpha beta''"] c u h
    by blast
  have f: "cli (map_of [(''hosts'', ''alpha beta''), (''common'', ''lab%org''), (''user'', ''u'')]) None =
     Inl InterpolationSyntaxError" by code_simp
  show ?thesis unfolding a b e sc sw using f by simp
qed

text \<open>
  The claim C7 as stated fails for an option given with the empty string: the test
  \<^verbatim>\<open>if hosts:\<close> is false for it, and the configured default is used instead of the split
  of the value.
\<close>

theorem cli_empty_hosts_option_counterexample:
  "cli (map_of [(''hosts'', ''alpha beta''), (''common'', ''lab.org''), (''user'', ''u'')]) (Some []) \<noteq>
     Inr \<lparr>hosts = map (\<lambda>h. py_join ''.'' [h, ''lab.org'']) (split_comma []), user = ''u''\<rparr>"
proof -
  have "cli (map_of [(''hosts'', ''alpha beta''), (''common'', ''lab.org''), (''user'', ''u'')]) (Some []) =
        Inr \<lparr>hosts = [''alpha.lab.org'', ''beta.lab.org''], user = ''u''\<rparr>"
    by code_simp
  moreover have "map (\<lambda>h. py_join ''.'' [h, ''lab.org'']) (split_comma []) = [''.lab.org'']"
    by code_simp
  ultimately show ?thesis by simp
qed

section \<open>The dispatcher\<close>

lemma foldl_update_keys:
  "fst ` set (foldl (\<lambda>res h. AList.update h (f h) res) acc hs) = fst ` set acc \<union> set hs"
  by (induction hs arbitrary: acc) (auto simp: dom_update)

lemma foldl_update_distinct_keys:
  "distinct (map fst acc) \<Longrightarrow>
   distinct (map fst (foldl (\<lambda>res h. AList.update h (f h) res) acc hs))"
  by (induction hs arbitrary: acc) (auto simp: distinct_update)

lemma foldl_update_lookup:
  "map_of (foldl (\<lambda>res h. AList.update h (f h) res) acc hs) h =
     (if h \<in> set hs then Some (f h) else map_of acc h)"
  by (induction hs arbitrary: acc) (auto simp: update_conv')

text \<open>
  Claim C1. For every non-empty set of hosts, given as a list, and whatever the executor
  does on each host, the dispatcher returns a mapping with exactly one entry for each input
  host and no other: as many entries as there are hosts. The entry of a host is the
  outcome of that host, a success or a failure, so every host has ended when the mapping
  is returned.
\<close>

theorem dispatch_one_entry_per_host:
  assumes "hs \<noteq> []" and "res = run_group_command execute hs identity command"
  shows "set (map fst res) = set hs
       \<and> distinct (map fst res)
       \<and> length res = card (set hs)
       \<and> (\<forall>h \<in> set hs. map_of res h = Some (run_on_host execute identity command h))
       \<and> (\<forall>h. h \<notin> set hs \<longrightarrow> map_of res h = None)"
proof -
  let ?f = "run_on_host execute identity command"
  have res: "res = foldl (\<lambda>res h. AList.update h (?f h) res) [] hs"
    using assms(2) by (simp add: run_group_command_def)
  have keys: "set (map fst res) = set hs"
    unfolding res using foldl_update_keys [of ?f "[]" hs] by simp
  have dist: "distinct (map fst res)"
    unfolding res by (rule foldl_update_distinct_keys) simp
  have "length res = length (map fst res)" by simp
  also have "\<dots> = card (set (map fst res))" using dist by (simp only: distinct_card)
  also have "\<dots> = card (set hs)" by (simp only: keys)
  finally have len: "length res = card (set hs)" .
  have look: "map_of res h = (if h \<in> set hs then Some (?f h) else None)" for h
    unfolding res using foldl_update_lookup [of ?f "[]" hs h] by simp
  show ?thesis using keys dist len look by simp
qed

theorem dispatch_one_entry_per_host_witness:
  "[''h1'', ''h2'', ''h3''] \<noteq> []
   \<and> run_group_command
        (\<lambda>h i c. if h = ''h2'' then Inl ''connection refused'' else Inr (''out'', [], 0))
        [''h1'', ''h2'', ''h3''] ''user'' ''cmd'' =
      [(''h1'', Success ''out'' []), (''h2'', Failure (ExecutionError ''connection refused'')),
       (''h3'', Success ''out'' [])]
   \<and> length (run_group_command
        (\<lambda>h i c. if h = ''h2'' then Inl ''connection refused'' else Inr (''out'', [], 0))
        [''h1'', ''h2'', ''h3''] ''user'' ''cmd'') = 3"
proof -
  let ?ex = "\<lambda>(h :: host) (i :: string) (c :: string).
     if h = ''h2'' then Inl ''connection refused'' else Inr (''out'', [], 0 :: int)"
  have ne: "[''h1'', ''h2'', ''h3''] \<noteq> []" by simp
  have ev: "run_group_command ?ex [''h1'', ''h2'', ''h3''] ''user'' ''cmd'' =
      [(''h1'', Success ''out'' []), (''h2'', Failure (ExecutionError ''connection refused'')),
       (''h3'', Success ''out'' [])]"
    by (simp add: run_group_command_def run_on_host_def)
  have c: "card (set [''h1'', ''h2'', ''h3'']) = 3" by simp
  from dispatch_one_entry_per_host [OF ne refl, of ?ex "''user''" "''cmd''"]
  have "length (run_group_command ?ex [''h1'', ''h2'', ''h3''] ''user'' ''cmd'') =
        card (set [''h1'', ''h2'', ''h3''])" by blast
  with c have l: "length (run_group_command ?ex [''h1'', ''h2'', ''h3''] ''user'' ''cmd'') = 3"
    by (simp only:)
  show ?thesis by (intro conjI) (rule ne ev l)+
qed

section \<open>The table\<close>

lemma emit_rows_map:
  "emit_rows fs (map (\<lambda>h. (h, g h)) hs) = concat (map (\<lambda>h. map (row_of fs) (g h)) hs)"
  by (induction hs) auto

lemma map_insort_key: "map f (insort_key f x xs) = insort (f x) (map f xs)"
  by (induction xs) auto

lemma map_sort_key: "map f (sort_key f xs) = sort (map f xs)"
  by (induction xs) (auto simp: map_insort_key)

lemma sorted_items:
  assumes "distinct (map fst data)"
  shows "sort_key fst data = map (\<lambda>h. (h, records_of data h)) (sort (map fst data))"
proof -
  have "p = (fst p, records_of data (fst p))" if "p \<in> set (sort_key fst data)" for p
  proof -
    from that have "(fst p, snd p) \<in> set data" by simp
    with assms have "map_of data (fst p) = Some (snd p)" by (rule map_of_is_SomeI)
    then show ?thesis by (simp add: records_of_def)
  qed
  then have "map (\<lambda>p. (fst p, records_of data (fst p))) (sort_key fst data) = sort_key fst data"
    by (intro map_idI) simp
  then have "sort_key fst data =
             map (\<lambda>h. (h, records_of data h)) (map fst (sort_key fst data))"
    by (simp add: comp_def)
  then show ?thesis by (simp only: map_sort_key)
qed

lemma emit_rows_insort_empty: "emit_rows fs (insort_key fst (h, []) xs) = emit_rows fs xs"
  by (induction xs) auto

lemma emit_rows_filter: "emit_rows fs (filter (\<lambda>(h, rs). rs \<noteq> []) xs) = emit_rows fs xs"
  by (induction xs) auto

lemma row_of_cell: "i < length fs \<Longrightarrow> row_of fs r ! i = cell_value r (fs ! i)"
  by (simp add: row_of_def nth_append)

lemma foldl_update_map:
  "distinct (map fst acc @ map fst xs) \<Longrightarrow>
   foldl (\<lambda>d (c, s). AList.update c (g s) d) acc xs = acc @ map (\<lambda>(c, s). (c, g s)) xs"
proof (induction xs arbitrary: acc)
  case Nil
  show ?case by simp
next
  case (Cons x xs)
  obtain c s where x: "x = (c, s)" by (cases x)
  have absent: "c \<notin> fst ` set acc" using Cons.prems x by auto
  have "distinct (map fst (acc @ [(c, g s)]) @ map fst xs)" using Cons.prems x by simp
  from Cons.IH [OF this] show ?case using x absent by (simp add: update_absent)
qed

lemma check_gpus_data_sorted:
  assumes "distinct (map fst results)"
  shows "check_gpus_data results = map (\<lambda>(c, s). (c, parse_gpus s)) (sort_key fst results)"
proof -
  have "distinct (map fst (sort_key fst results))"
    using assms by (simp add: map_sort_key)
  then show ?thesis
    using foldl_update_map [of "[]" "sort_key fst results" parse_gpus]
    by (simp add: check_gpus_data_def)
qed

lemma insort_key_map_fst:
  "insort_key fst (c, g s) (map (\<lambda>(c, s). (c, g s)) xs) =
   map (\<lambda>(c, s). (c, g s)) (insort_key fst (c, s) xs)"
  by (induction xs) auto

lemma sort_key_map_fst:
  "sort_key fst (map (\<lambda>(c, s). (c, g s)) xs) = map (\<lambda>(c, s). (c, g s)) (sort_key fst xs)"
proof (induction xs)
  case Nil
  show ?case by simp
next
  case (Cons x xs)
  obtain c s where x: "x = (c, s)" by (cases x)
  show ?case using Cons x by (simp add: insort_key_map_fst)
qed

lemma check_gpus_table:
  assumes "distinct (map fst results)"
  shows "check_gpus results =
         construct_table gpu_field_names (map (\<lambda>(c, s). (c, parse_gpus s)) results)"
proof -
  let ?d = "map (\<lambda>(c, s). (c, parse_gpus s)) (sort_key fst results)"
  have "sorted (map fst ?d)"
    using sorted_sort_key [of fst "map (\<lambda>(c, s). (c, parse_gpus s)) results"]
    by (simp only: sort_key_map_fst)
  then have "sort_key fst ?d = ?d" by (rule sort_key_id_if_sorted)
  then show ?thesis
    by (simp add: check_gpus_def check_gpus_data_sorted [OF assms] construct_table_def
        sort_key_map_fst)
qed

text \<open>
  Claim C3. For every field set and every mapping from hosts to record sequences (the
  keys of a mapping are distinct), the rows of the table are those of the hosts in sorted
  order of host, each host's records in their order; the cell of a declared column is the
  record's value for that field, or the empty string when the record has none. A host with
  no record contributes no row: removing such hosts, or adding one, leaves the rows, and
  in the second case the whole table, as they are. The table of \<^verbatim>\<open>check_gpus\<close> is the
  table of the parsed outputs of the hosts.
\<close>

theorem table_rows_by_sorted_host:
  assumes "distinct (map fst data)" and "t = construct_table fs data"
  shows "headers t = fs
       \<and> rows t = concat (map (\<lambda>h. map (row_of fs) (records_of data h)) (sort (map fst data)))
       \<and> sorted (sort (map fst data)) \<and> set (sort (map fst data)) = fst ` set data
       \<and> (\<forall>r. \<forall>i < length fs.
             row_of fs r ! i = (case map_of r (fs ! i) of Some v \<Rightarrow> v | None \<Rightarrow> []))
       \<and> rows (construct_table fs (filter (\<lambda>(h, rs). rs \<noteq> []) data)) = rows t
       \<and> construct_table fs ((h, []) # data) = t
       \<and> (distinct (map fst results) \<longrightarrow>
            check_gpus results =
              construct_table gpu_field_names (map (\<lambda>(c, s). (c, parse_gpus s)) results))"
proof -
  have hd: "headers t = fs" using assms(2) by (simp add: construct_table_def Let_def)
  have rw: "rows t = emit_rows fs (sort_key fst data)"
    using assms(2) by (simp add: construct_table_def Let_def)
  have gr: "rows t = concat (map (\<lambda>h. map (row_of fs) (records_of data h)) (sort (map fst data)))"
    unfolding rw sorted_items [OF assms(1)] by (rule emit_rows_map)
  have ce: "\<forall>r. \<forall>i < length fs.
             row_of fs r ! i = (case map_of r (fs ! i) of Some v \<Rightarrow> v | None \<Rightarrow> [])"
    by (simp add: row_of_cell cell_value_def)
  have "rows (construct_table fs (filter (\<lambda>(h, rs). rs \<noteq> []) data)) =
        emit_rows fs (filter (\<lambda>(h, rs). rs \<noteq> []) (sort_key fst data))"
    by (simp add: construct_table_def Let_def filter_sort)
  then have em: "rows (construct_table fs (filter (\<lambda>(h, rs). rs \<noteq> []) data)) = rows t"
    by (simp only: emit_rows_filter rw)
  have pl: "construct_table fs ((h, []) # data) = t"
    using assms(2) by (simp add: construct_table_def Let_def emit_rows_insort_empty)
  have cg: "distinct (map fst results) \<longrightarrow>
            check_gpus results =
              construct_table gpu_field_names (map (\<lambda>(c, s). (c, parse_gpus s)) results)"
    using check_gpus_table by blast
  have so: "sorted (sort (map fst data))" "set (sort (map fst data)) = fst ` set data"
    by simp_all
  show ?thesis using hd gr so ce em pl cg by blast
qed

theorem table_rows_by_sorted_host_witness:
  "distinct (map fst [(''b'', [[(''ID'', ''abc123''), (''Name'', ''x'')]]), (''c'', []),
                      (''a'', [[(''ID'', ''1'')], [(''Name'', ''y'')]])])
   \<and> rows (construct_table [''ID'', ''Name'']
        [(''b'', [[(''ID'', ''abc123''), (''Name'', ''x'')]]), (''c'', []),
         (''a'', [[(''ID'', ''1'')], [(''Name'', ''y'')]])]) =
      [[''1'', []], [[], ''y''], [''abc123'', ''x'']]
   \<and> check_gpus [(''hostY'', []), (''hostX'', ''0, 45, 60, 2048, 8192'' @ [newline])] =
      \<lparr>headers = gpu_field_names, rows = [[''0'', ''45'', ''60'', ''2048'', ''8192'']],
       widths = [5, 8, 9, 10, 11]\<rparr>"
proof -
  let ?data = "[(''b'', [[(''ID'', ''abc123''), (''Name'', ''x'')]]), (''c'', []),
                (''a'', [[(''ID'', ''1'')], [(''Name'', ''y'')]])]"
  let ?res = "[(''hostY'', []), (''hostX'', ''0, 45, 60, 2048, 8192'' @ [newline])]"
  have d: "distinct (map fst ?data)" by simp
  have dr: "distinct (map fst ?res)" by simp
  have ev: "concat (map (\<lambda>h. map (row_of [''ID'', ''Name'']) (records_of ?data h))
              (sort (map fst ?data))) = [[''1'', []], [[], ''y''], [''abc123'', ''x'']]"
    by code_simp
  have eg: "construct_table gpu_field_names (map (\<lambda>(c, s). (c, parse_gpus s)) ?res) =
      \<lparr>headers = gpu_field_names, rows = [[''0'', ''45'', ''60'', ''2048'', ''8192'']],
       widths = [5, 8, 9, 10, 11]\<rparr>"
    by code_simp
  from table_rows_by_sorted_host [OF d refl, of "[''ID'', ''Name'']" _ ?res]
  have r: "rows (construct_table [''ID'', ''Name''] ?data) =
           concat (map (\<lambda>h. map (row_of [''ID'', ''Name'']) (records_of ?data h))
              (sort (map fst ?data)))"
    and g: "distinct (map fst ?res) \<longrightarrow>
            check_gpus ?res =
              construct_table gpu_field_names (map (\<lambda>(c, s). (c, parse_gpus s)) ?res)"
    by blast+
  from g dr have g': "check_gpus ?res =
              construct_table gpu_field_names (map (\<lambda>(c, s). (c, parse_gpus s)) ?res)"
    by blast
  show ?thesis by (intro conjI) (rule d, simp only: r ev, simp only: g' eg)
qed

section \<open>The column widths\<close>

lemma length_widen: "length (widen ws r) = max (length ws) (length r)"
  by (induction ws r rule: widen.induct) auto

lemma widen_keeps: "j < length ws \<Longrightarrow> ws ! j \<le> widen ws r ! j"
  by (induction ws r arbitrary: j rule: widen.induct) (auto simp: nth_Cons')

lemma widen_covers: "j < length r \<Longrightarrow> length (r ! j) \<le> widen ws r ! j"
  by (induction ws r arbitrary: j rule: widen.induct) (auto simp: nth_Cons')

lemma widen_attained:
  "j < length (widen ws r) \<Longrightarrow>
   (j < length ws \<and> widen ws r ! j = ws ! j) \<or> (j < length r \<and> widen ws r ! j = length (r ! j))"
proof (induction ws r arbitrary: j rule: widen.induct)
  case (1 ws)
  then show ?case by simp
next
  case (2 c cs)
  show ?case
  proof (cases j)
    case 0
    then show ?thesis by simp
  next
    case (Suc k)
    with "2.prems" have "k < length (widen [] cs)" by simp
    from "2.IH" [OF this] Suc show ?thesis by simp
  qed
next
  case (3 w ws c cs)
  show ?case
  proof (cases j)
    case 0
    then show ?thesis by (simp add: max_def)
  next
    case (Suc k)
    with "3.prems" have "k < length (widen ws cs)" by simp
    from "3.IH" [OF this] Suc show ?thesis by simp
  qed
qed

lemma foldl_widen_keeps:
  "j < length ws \<Longrightarrow> j < length (foldl widen ws rs) \<and> ws ! j \<le> foldl widen ws rs ! j"
proof (induction rs arbitrary: ws)
  case Nil
  then show ?case by simp
next
  case (Cons r rs)
  have j: "j < length (widen ws r)" using Cons.prems by (simp add: length_widen)
  from Cons.IH [OF j] widen_keeps [OF Cons.prems, of r] show ?case by auto
qed

lemma foldl_widen_covers:
  "r \<in> set rs \<Longrightarrow> j < length r \<Longrightarrow>
   j < length (foldl widen ws rs) \<and> length (r ! j) \<le> foldl widen ws rs ! j"
proof (induction rs arbitrary: ws)
  case Nil
  then show ?case by simp
next
  case (Cons x rs)
  show ?case
  proof (cases "r = x")
    case True
    have j: "j < length (widen ws x)" using Cons.prems(2) True by (simp add: length_widen)
    from foldl_widen_keeps [OF j, of rs] widen_covers [of j x ws] Cons.prems(2) True
    show ?thesis by auto
  next
    case False
    with Cons.prems have "r \<in> set rs" by simp
    from Cons.IH [OF this Cons.prems(2)] show ?thesis by simp
  qed
qed

lemma foldl_widen_attained:
  "j < length (foldl widen ws rs) \<Longrightarrow>
   (j < length ws \<and> foldl widen ws rs ! j = ws ! j)
   \<or> (\<exists>r \<in> set rs. j < length r \<and> foldl widen ws rs ! j = length (r ! j))"
proof (induction rs arbitrary: ws)
  case Nil
  then show ?case by simp
next
  case (Cons x rs)
  from Cons.prems have "j < length (foldl widen (widen ws x) rs)" by simp
  from Cons.IH [OF this]
  consider "j < length (widen ws x)" "foldl widen (widen ws x) rs ! j = widen ws x ! j"
    | "\<exists>r \<in> set rs. j < length r \<and> foldl widen (widen ws x) rs ! j = length (r ! j)"
    by blast
  then show ?case
  proof cases
    case 1
    from widen_attained [OF 1(1)] 1(2) show ?thesis by auto
  next
    case 2
    then show ?thesis by auto
  qed
qed

lemma column_widths_max:
  assumes "j < length (column_widths hdrs rs)"
  shows "column_widths hdrs rs ! j = Max (set (column_cells (hdrs # rs) j))"
proof -
  let ?W = "foldl widen [] (hdrs # rs)"
  have j: "j < length ?W" using assms by (simp add: column_widths_def)
  from foldl_widen_attained [OF j] obtain r
    where r: "r \<in> set (hdrs # rs)" "j < length r" "?W ! j = length (r ! j)" by auto
  have mem: "?W ! j \<in> set (column_cells (hdrs # rs) j)"
    using r unfolding column_cells_def by (simp only: set_map set_filter) blast
  have ub: "n \<le> ?W ! j" if "n \<in> set (column_cells (hdrs # rs) j)" for n
  proof -
    from that obtain q where "q \<in> set (hdrs # rs)" "j < length q" "n = length (q ! j)"
      unfolding column_cells_def by (simp only: set_map set_filter) blast
    with foldl_widen_covers [of q "hdrs # rs" j "[]"] show ?thesis by simp
  qed
  have "Max (set (column_cells (hdrs # rs) j)) = ?W ! j"
  proof (rule Max_eqI)
    show "finite (set (column_cells (hdrs # rs) j))" by simp
  qed (use ub mem in auto)
  then show ?thesis by (simp add: column_widths_def)
qed

text \<open>
  Claim C6. In every table, the width of every column is the maximum of the lengths of the
  header and of all the cells of that column; so it is at least the length of the header
  and at least the length of every cell of the column.
\<close>

theorem column_width_is_max:
  assumes "t = construct_table fs data"
  shows "(\<forall>j < length (widths t). widths t ! j = Max (set (column_cells (headers t # rows t) j)))
       \<and> (\<forall>j < length (headers t). j < length (widths t) \<and> length (headers t ! j) \<le> widths t ! j)
       \<and> (\<forall>r \<in> set (rows t). \<forall>j < length r.
             j < length (widths t) \<and> length (r ! j) \<le> widths t ! j)"
proof -
  have w: "widths t = column_widths (headers t) (rows t)"
    using assms by (simp add: construct_table_def Let_def)
  have a: "\<forall>j < length (widths t). widths t ! j = Max (set (column_cells (headers t # rows t) j))"
    unfolding w using column_widths_max by blast
  have b: "\<forall>j < length (headers t). j < length (widths t) \<and> length (headers t ! j) \<le> widths t ! j"
  proof (intro allI impI)
    fix j assume j: "j < length (headers t)"
    have "headers t \<in> set (headers t # rows t)" by simp
    from foldl_widen_covers [OF this j, of "[]"]
    show "j < length (widths t) \<and> length (headers t ! j) \<le> widths t ! j"
      unfolding w column_widths_def .
  qed
  have c: "\<forall>r \<in> set (rows t). \<forall>j < length r.
             j < length (widths t) \<and> length (r ! j) \<le> widths t ! j"
  proof (intro ballI allI impI)
    fix r j assume r: "r \<in> set (rows t)" and j: "j < length r"
    from r have "r \<in> set (headers t # rows t)" by simp
    from foldl_widen_covers [OF this j, of "[]"]
    show "j < length (widths t) \<and> length (r ! j) \<le> widths t ! j"
      unfolding w column_widths_def .
  qed
  show ?thesis using a b c by blast
qed

theorem column_width_is_max_witness:
  "widths (construct_table [''ID'', ''Name'']
      [(''b'', [[(''ID'', ''abc123''), (''Name'', ''x'')]]), (''a'', [[(''ID'', ''1'')]])]) = [6, 4]
   \<and> Max (set (column_cells ([''ID'', ''Name''] # [[''1'', []], [''abc123'', ''x'']]) 0)) = 6
   \<and> Max (set (column_cells ([''ID'', ''Name''] # [[''1'', []], [''abc123'', ''x'']]) 1)) = 4"
proof -
  let ?t = "construct_table [''ID'', ''Name'']
      [(''b'', [[(''ID'', ''abc123''), (''Name'', ''x'')]]), (''a'', [[(''ID'', ''1'')]])]"
  have ev: "?t = \<lparr>headers = [''ID'', ''Name''], rows = [[''1'', []], [''abc123'', ''x'']],
                  widths = [6, 4]\<rparr>"
    by code_simp
  from column_width_is_max [OF refl, of "[''ID'', ''Name'']"
      "[(''b'', [[(''ID'', ''abc123''), (''Name'', ''x'')]]), (''a'', [[(''ID'', ''1'')]])]"]
  have "\<forall>j < length (widths ?t). widths ?t ! j = Max (set (column_cells (headers ?t # rows ?t) j))"
    by blast
  then have al: "\<forall>j < 2. [6, 4] ! j =
      Max (set (column_cells ([''ID'', ''Name''] # [[''1'', []], [''abc123'', ''x'']]) j))"
    unfolding ev by simp
  have c0: "Max (set (column_cells ([''ID'', ''Name''] # [[''1'', []], [''abc123'', ''x'']]) 0)) = 6"
    using al [rule_format, of 0] by simp
  have c1: "Max (set (column_cells ([''ID'', ''Name''] # [[''1'', []], [''abc123'', ''x'']]) 1)) = 4"
    using al [rule_format, of 1] by simp
  show ?thesis unfolding ev using c0 c1 by simp
qed

end
